theory Spec2Isabelle
  imports Complex_Main "HOL-Library.Word" "HOL-Library.Log_Nat" "HOL-Library.Multiset"
begin

section \<open>The cup-stencil renderer of HeyTea-DIY-Toolkit\<close>

text \<open>
  The module under verification turns a decoded photo into a fixed-size stencil: it fits the
  image onto a \<open>596 \<times> 832\<close> canvas, tone-maps the pixels (binary threshold, sampled
  halftone, or nothing) and searches a ladder of encodings for one within a byte budget.
  Every definition below is a transcription of one function (or one group of lines) of the
  TypeScript source; the browser's own services (rasterising, encoding) are parameters.
\<close>

subsection \<open>Numbers\<close>

text \<open>
  A TypeScript \<open>number\<close> is an IEEE-754 binary64 value. Quantities that the program only
  ever uses as integers (indices, lengths, channel values, quantization steps, byte counts)
  are \<open>nat\<close> or \<open>int\<close>: integer arithmetic below \<open>2^53\<close> is exact in binary64. Every
  other arithmetic result is rounded to the nearest binary64 value, ties to even, by \<open>fl\<close>.
  The exponent range is taken to be unbounded (no overflow, no subnormals). The threshold
  and the sample density reach the tone mappers exactly as the caller passed them, so they
  are values of the type \<open>number\<close> below, which has \<open>NaN\<close> and the two infinities; once
  clamped they are an integer or \<open>NaN\<close>, written \<open>Some k\<close> or \<open>None\<close>. The byte budget
  is a finite number. Wherever else the source can meet \<open>undefined\<close> or \<open>NaN\<close> the
  branch it takes is written out.
\<close>

datatype number = NaN | NegInfinity | Finite real | Infinity

definition expo :: "real \<Rightarrow> int" where
  \<comment> \<open>for \<open>x > 0\<close>, the \<open>e\<close> with \<open>2^e \<le> x < 2^(e+1)\<close>\<close>
  "expo x = (if 1 \<le> x then bitlen \<lfloor>x\<rfloor> - 1 else - bitlen (\<lceil>1 / x\<rceil> - 1))"

definition rne :: "real \<Rightarrow> int" where
  \<comment> \<open>round to the nearest integer, ties to the even one\<close>
  "rne t = (let n = \<lfloor>t\<rfloor>; r = t - of_int n
            in if r < 1 / 2 then n else if 1 / 2 < r then n + 1
               else if even n then n else n + 1)"

definition fl :: "real \<Rightarrow> real" where
  \<comment> \<open>round to 53 significant bits\<close>
  "fl x = (if x = 0 then 0
           else let u = 2 powi (expo \<bar>x\<bar> - 52)
                in sgn x * of_int (rne (\<bar>x\<bar> / u)) * u)"

definition Math_round :: "real \<Rightarrow> int" where
  \<comment> \<open>\<open>Math.round\<close>: the nearest integer, ties towards \<open>+\<infinity>\<close>\<close>
  "Math_round x = \<lfloor>x + 1 / 2\<rfloor>"

definition Math_floor :: "real \<Rightarrow> int" where
  "Math_floor x = \<lfloor>x\<rfloor>"

definition Math_atan2 :: "real \<Rightarrow> real \<Rightarrow> real" where
  \<comment> \<open>\<open>Math.atan2(y, x)\<close>, the angle of the point \<open>(x, y)\<close> in \<open>(-\<pi>, \<pi>]\<close>\<close>
  "Math_atan2 y x =
     (if 0 < x then arctan (y / x)
      else if x < 0 then (if 0 \<le> y then arctan (y / x) + pi else arctan (y / x) - pi)
      else if 0 < y then pi / 2
      else if y < 0 then - (pi / 2)
      else 0)"

definition toUint8Clamp :: "real \<Rightarrow> 8 word" where
  \<comment> \<open>a store into a \<open>Uint8ClampedArray\<close>: clamp to \<open>0..255\<close>, round ties to even\<close>
  "toUint8Clamp x = word_of_int (rne (max 0 (min 255 x)))"

subsection \<open>Configuration (config/heytea)\<close>

definition CUP_WIDTH :: nat where
  "CUP_WIDTH = 596"

definition CUP_HEIGHT :: nat where
  "CUP_HEIGHT = 832"

definition MAX_UPLOAD_BYTES :: real where
  "MAX_UPLOAD_BYTES = 200 * 1024"

subsection \<open>Data\<close>

datatype ToneMode = binary | sampled | original

datatype Fit = contain | cover

datatype TargetFormat = png | auto

record RenderOptions =
  toneMode :: "ToneMode option"
  threshold :: "number option"
  sampleDensity :: "number option"
  fit :: Fit
  maxBytes :: "real option"
  targetFormat :: "TargetFormat option"

text \<open>
  \<open>ImageData\<close>: RGBA bytes, row-major. The browser only builds values with
  \<open>length data = 4 * width * height\<close>.
\<close>

record ImageData =
  data :: "8 word list"
  width :: nat
  height :: nat

definition wellformed :: "ImageData \<Rightarrow> bool" where
  "wellformed imageData \<longleftrightarrow> length (data imageData) = 4 * width imageData * height imageData"

record HTMLImageElement =
  image_width :: nat
  image_height :: nat
  image_src :: string

record Blob =
  blob_size :: nat
  blob_type :: string

datatype error =
    NoCanvas \<comment> \<open>the browser gave no 2d context\<close>
  | PngOverBudget int \<comment> \<open>the PNG ladder ended over budget; carries \<open>Math.round(maxBytes / 1024)\<close>\<close>
  | ExportFailed \<comment> \<open>no encoder attempt produced a blob\<close>

text \<open>
  What the browser provides: whether a 2d context exists, the pixels of the cleared canvas
  after \<open>drawImage\<close>, and \<open>canvas.toBlob\<close> on a canvas holding given pixels.
\<close>

record platform =
  getContext :: bool
  drawImage :: "HTMLImageElement \<Rightarrow> real \<Rightarrow> real \<Rightarrow> real \<Rightarrow> real \<Rightarrow> 8 word list"
  canvasToBlob :: "ImageData \<Rightarrow> string \<Rightarrow> real option \<Rightarrow> Blob option"

subsection \<open>quantizeColors\<close>

text \<open>
  One channel: \<open>Math.min(255, Math.round(data[i] / divisor) * divisor)\<close>, stored back into
  the clamped byte array.
\<close>

definition quantizeChannel :: "int \<Rightarrow> 8 word \<Rightarrow> 8 word" where
  "quantizeChannel divisor v =
     toUint8Clamp (min 255
       (fl (of_int (Math_round (fl (real (unat v) / of_int divisor))) * of_int divisor)))"

text \<open>
  The loop \<open>for (let i = 0; i < data.length; i += 4)\<close>. A store beyond the end of a typed
  array is dropped, which is what \<open>list_update\<close> does.
\<close>

function quantizeColors_loop :: "int \<Rightarrow> nat \<Rightarrow> 8 word list \<Rightarrow> 8 word list" where
  "quantizeColors_loop divisor i d =
     (if i < length d then
        (let d1 = d[i := quantizeChannel divisor (d ! i)];
             d2 = d1[i + 1 := quantizeChannel divisor (d1 ! (i + 1))];
             d3 = d2[i + 2 := quantizeChannel divisor (d2 ! (i + 2))]
         in quantizeColors_loop divisor (i + 4) d3)
      else d)"
  by pat_completeness auto
termination
  by (relation "measure (\<lambda>(divisor, i, d). length d - i)") auto

declare quantizeColors_loop.simps [simp del]

definition quantizeColors :: "8 word list \<Rightarrow> int \<Rightarrow> 8 word list" where
  "quantizeColors d step = (let divisor = (if step \<le> 0 then 1 else step)
                            in quantizeColors_loop divisor 0 d)"

subsection \<open>applyBinaryThreshold\<close>

definition gray :: "8 word list \<Rightarrow> nat \<Rightarrow> real" where
  \<comment> \<open>\<open>data[i] * 0.299 + data[i + 1] * 0.587 + data[i + 2] * 0.114\<close>\<close>
  "gray d i =
     fl (fl (fl (real (unat (d ! i)) * fl 0.299) + fl (real (unat (d ! (i + 1))) * fl 0.587))
         + fl (real (unat (d ! (i + 2))) * fl 0.114))"

text \<open>
  \<open>Math.max(0, Math.min(255, Math.round(threshold)))\<close>. \<open>Math.round\<close> leaves \<open>NaN\<close> and
  the infinities as they are; \<open>Math.min\<close> and \<open>Math.max\<close> return \<open>NaN\<close> when an argument
  is \<open>NaN\<close>, and bring \<open>-Infinity\<close> up to 0 and \<open>Infinity\<close> down to 255.
\<close>

fun clampLimit :: "number \<Rightarrow> int option" where
  "clampLimit NaN = None"
| "clampLimit NegInfinity = Some 0"
| "clampLimit (Finite t) = Some (max 0 (min 255 (Math_round t)))"
| "clampLimit Infinity = Some 255"

definition greaterEq :: "real \<Rightarrow> int option \<Rightarrow> bool" where
  \<comment> \<open>\<open>gray >= limit\<close>; a comparison with \<open>NaN\<close> is false\<close>
  "greaterEq g limit = (case limit of None \<Rightarrow> False | Some l \<Rightarrow> of_int l \<le> g)"

text \<open>
  A read beyond the end yields \<open>undefined\<close>, the sum is then \<open>NaN\<close>, and
  \<open>NaN >= limit\<close> is false: this is the conjunct \<open>i + 2 < length d\<close>.
\<close>

function applyBinaryThreshold_loop :: "int option \<Rightarrow> nat \<Rightarrow> 8 word list \<Rightarrow> 8 word list" where
  "applyBinaryThreshold_loop limit i d =
     (if i < length d then
        (let v = (if i + 2 < length d \<and> greaterEq (gray d i) limit then 255 else 0)
         in applyBinaryThreshold_loop limit (i + 4) (d[i + 2 := v, i + 1 := v, i := v]))
      else d)"
  by pat_completeness auto
termination
  by (relation "measure (\<lambda>(limit, i, d). length d - i)") auto

declare applyBinaryThreshold_loop.simps [simp del]

definition applyBinaryThreshold :: "ImageData \<Rightarrow> number option \<Rightarrow> ImageData" where
  "applyBinaryThreshold imageData thresholdArg =
     (let limit = clampLimit (case thresholdArg of None \<Rightarrow> Finite 170 | Some t \<Rightarrow> t)
      in imageData\<lparr>data := applyBinaryThreshold_loop limit 0 (data imageData)\<rparr>)"

subsection \<open>getHalftonePattern\<close>

record Entry =
  index :: nat
  distance :: real
  angle :: real

definition compareEntries :: "Entry \<Rightarrow> Entry \<Rightarrow> real" where
  \<comment> \<open>the comparator handed to \<open>entries.sort\<close>\<close>
  "compareEntries a b =
     (if distance a = distance b then fl (angle a - angle b)
      else fl (distance a - distance b))"

text \<open>
  \<open>Array.prototype.sort\<close> is stable and orders by the sign of the comparator; it is
  modelled by a stable insertion sort.
\<close>

fun insert_sorted :: "('a \<Rightarrow> 'a \<Rightarrow> real) \<Rightarrow> 'a \<Rightarrow> 'a list \<Rightarrow> 'a list" where
  "insert_sorted cmp x [] = [x]"
| "insert_sorted cmp x (y # ys) =
     (if cmp x y < 0 then x # y # ys else y # insert_sorted cmp x ys)"

definition Array_sort :: "('a \<Rightarrow> 'a \<Rightarrow> real) \<Rightarrow> 'a list \<Rightarrow> 'a list" where
  "Array_sort cmp xs = foldl (\<lambda>acc x. insert_sorted cmp x acc) [] xs"

definition halftoneEntries :: "nat \<Rightarrow> nat \<Rightarrow> Entry list" where
  \<comment> \<open>the two nested loops filling \<open>entries\<close>, rows outermost\<close>
  "halftoneEntries w h =
     (let centerX = fl (fl (real w - 1) / 2);
          centerY = fl (fl (real h - 1) / 2)
      in map (\<lambda>(y, x).
               (let dx = fl (real x - centerX);
                    dy = fl (real y - centerY)
                in \<lparr>index = y * w + x,
                    distance = fl (fl (dx * dx) + fl (dy * dy)),
                    angle = Math_atan2 dy dx\<rparr>))
             (List.product [0..<h] [0..<w]))"

definition computePattern :: "nat \<Rightarrow> nat \<Rightarrow> 16 word list" where
  \<comment> \<open>the sorted indices, stored into a \<open>Uint16Array\<close> (a store keeps the low 16 bits)\<close>
  "computePattern w h =
     map (\<lambda>entry. word_of_nat (index entry)) (Array_sort compareEntries (halftoneEntries w h))"

text \<open>
  The module-level cache is a \<open>Map\<close> keyed by the string \<open>`${width}x${height}`\<close>; a
  non-negative integer prints as its decimal digits.
\<close>

fun decimal :: "nat \<Rightarrow> string" where
  "decimal n =
     (if n < 10 then [char_of (48 + n)]
      else decimal (n div 10) @ [char_of (48 + n mod 10)])"

declare decimal.simps [simp del]

definition cacheKey :: "nat \<Rightarrow> nat \<Rightarrow> string" where
  "cacheKey w h = decimal w @ ''x'' @ decimal h"

type_synonym halftonePatternCache = "string \<rightharpoonup> 16 word list"

definition getHalftonePattern ::
  "halftonePatternCache \<Rightarrow> nat \<Rightarrow> nat \<Rightarrow> 16 word list \<times> halftonePatternCache" where
  "getHalftonePattern cache w h =
     (let key = cacheKey w h
      in case cache key of
           Some cached \<Rightarrow> (cached, cache)
         | None \<Rightarrow> (let pattern = computePattern w h in (pattern, cache(key \<mapsto> pattern))))"

subsection \<open>applySampledMonochrome\<close>

definition clamp01 :: "real \<Rightarrow> real" where
  "clamp01 v = (if v < 0 then 0 else if 1 < v then 1 else v)"

definition blockGraySum :: "8 word list \<Rightarrow> nat \<Rightarrow> nat \<Rightarrow> nat \<Rightarrow> nat \<Rightarrow> nat \<Rightarrow> real" where
  \<comment> \<open>the loops over \<open>offsetY\<close> and \<open>offsetX\<close> that accumulate \<open>graySum\<close>\<close>
  "blockGraySum d w x y blockWidth blockHeight =
     foldl (\<lambda>graySum (offsetY, offsetX).
              fl (graySum + gray d (((y + offsetY) * w + (x + offsetX)) * 4)))
           0 (List.product [0..<blockHeight] [0..<blockWidth])"

definition paintBlock ::
  "8 word list \<Rightarrow> nat \<Rightarrow> nat \<Rightarrow> nat \<Rightarrow> nat \<Rightarrow> nat \<Rightarrow> int option \<Rightarrow> 16 word list
     \<Rightarrow> 8 word list" where
  \<comment> \<open>the loop over \<open>order\<close> that walks the pattern; \<open>order < whitePixels\<close> is false when
      \<open>whitePixels\<close> is \<open>NaN\<close>\<close>
  "paintBlock d w x y blockWidth pixelCount whitePixels pattern =
     foldl (\<lambda>d' order.
              (let localIndex = unat (pattern ! order);
                   localX = localIndex mod blockWidth;
                   localY = nat (Math_floor (fl (real localIndex / real blockWidth)));
                   idx = ((y + localY) * w + (x + localX)) * 4;
                   v = (case whitePixels of
                          None \<Rightarrow> 0
                        | Some n \<Rightarrow> if int order < n then 255 else 0)
               in d'[idx := v, idx + 1 := v, idx + 2 := v]))
           d [0..<pixelCount]"

text \<open>
  The body of the loop over \<open>x\<close>. When the limit is \<open>NaN\<close> so is \<open>bias\<close>, and then so are
  \<open>normalized\<close> (both comparisons of \<open>clamp01\<close> are false, so it returns its argument) and
  \<open>whitePixels\<close>.
\<close>

definition sampledBlock ::
  "real option \<Rightarrow> nat \<Rightarrow> nat \<Rightarrow> nat \<Rightarrow> nat \<Rightarrow> nat \<Rightarrow> 8 word list \<times> halftonePatternCache
     \<Rightarrow> 8 word list \<times> halftonePatternCache" where
  "sampledBlock bias w x y blockWidth blockHeight st =
     (let pixelCount = blockWidth * blockHeight
      in if pixelCount = 0 then st
         else
           (let graySum = blockGraySum (fst st) w x y blockWidth blockHeight;
                grayValue = fl (graySum / real pixelCount);
                normalized = map_option (\<lambda>b. clamp01 (fl (fl (grayValue / 255) - b))) bias;
                whitePixels =
                  map_option (\<lambda>n. Math_round (fl (n * real pixelCount))) normalized;
                got = getHalftonePattern (snd st) blockWidth blockHeight
            in (paintBlock (fst st) w x y blockWidth pixelCount whitePixels (fst got), snd got)))"

text \<open>
  The loops over \<open>x\<close> and \<open>y\<close> for a block size that is a number: they advance by
  \<open>blockSize\<close>, which is at least 2 where they are entered; the conjunct \<open>0 < blockSize\<close>
  only makes the recursion total.
\<close>

function sampledRow ::
  "nat \<Rightarrow> real option \<Rightarrow> nat \<Rightarrow> nat \<Rightarrow> nat \<Rightarrow> nat \<Rightarrow> 8 word list \<times> halftonePatternCache
     \<Rightarrow> 8 word list \<times> halftonePatternCache" where
  "sampledRow blockSize bias w y blockHeight x st =
     (if x < w \<and> 0 < blockSize then
        sampledRow blockSize bias w y blockHeight (x + blockSize)
          (sampledBlock bias w x y (min blockSize (w - x)) blockHeight st)
      else st)"
  by pat_completeness auto
termination
  by (relation "measure (\<lambda>(blockSize, bias, w, y, blockHeight, x, st). w - x)") auto

declare sampledRow.simps [simp del]

function sampledRows ::
  "nat \<Rightarrow> real option \<Rightarrow> nat \<Rightarrow> nat \<Rightarrow> nat \<Rightarrow> 8 word list \<times> halftonePatternCache
     \<Rightarrow> 8 word list \<times> halftonePatternCache" where
  "sampledRows blockSize bias w h y st =
     (if y < h \<and> 0 < blockSize then
        sampledRows blockSize bias w h (y + blockSize)
          (sampledRow blockSize bias w y (min blockSize (h - y)) 0 st)
      else st)"
  by pat_completeness auto
termination
  by (relation "measure (\<lambda>(blockSize, bias, w, h, y, st). h - y)") auto

declare sampledRows.simps [simp del]

text \<open>
  \<open>Math.max(2, Math.min(32, Math.round(density)))\<close>, as \<open>clampLimit\<close>.
\<close>

fun clampBlockSize :: "number \<Rightarrow> nat option" where
  "clampBlockSize NaN = None"
| "clampBlockSize NegInfinity = Some 2"
| "clampBlockSize (Finite density) = Some (nat (max 2 (min 32 (Math_round density))))"
| "clampBlockSize Infinity = Some 32"

text \<open>
  When \<open>blockSize\<close> is \<open>NaN\<close>, so are \<open>blockHeight\<close>, \<open>blockWidth\<close> and \<open>pixelCount\<close>:
  the first block, if the loops are entered at all, is skipped by \<open>if (!pixelCount)\<close>, and
  \<open>x += blockSize\<close> and \<open>y += blockSize\<close> make \<open>x\<close> and \<open>y\<close> \<open>NaN\<close>, which ends both
  loops. Nothing is painted and no pattern is asked for.
\<close>

definition applySampledMonochrome ::
  "halftonePatternCache \<Rightarrow> ImageData \<Rightarrow> number option \<Rightarrow> number option
     \<Rightarrow> ImageData \<times> halftonePatternCache" where
  "applySampledMonochrome cache imageData densityArg thresholdArg =
     (let limit = clampLimit (case thresholdArg of None \<Rightarrow> Finite 170 | Some t \<Rightarrow> t);
          bias = map_option (\<lambda>l. fl (of_int (l - 170) / 255)) limit
      in case clampBlockSize (case densityArg of None \<Rightarrow> Finite 6 | Some n \<Rightarrow> n) of
           None \<Rightarrow> (imageData, cache)
         | Some blockSize \<Rightarrow>
             (let st = sampledRows blockSize bias (width imageData) (height imageData) 0
                         (data imageData, cache)
              in (imageData\<lparr>data := fst st\<rparr>, snd st)))"

subsection \<open>The encoders\<close>

record Attempt =
  type :: string
  quality :: "real option"

definition attempts :: "Attempt list" where
  "attempts =
     [\<lparr>type = ''image/png'', quality = None\<rparr>,
      \<lparr>type = ''image/jpeg'', quality = Some 0.95\<rparr>,
      \<lparr>type = ''image/jpeg'', quality = Some 0.9\<rparr>,
      \<lparr>type = ''image/jpeg'', quality = Some 0.85\<rparr>,
      \<lparr>type = ''image/jpeg'', quality = Some 0.8\<rparr>,
      \<lparr>type = ''image/jpeg'', quality = Some 0.75\<rparr>,
      \<lparr>type = ''image/jpeg'', quality = Some 0.7\<rparr>,
      \<lparr>type = ''image/jpeg'', quality = Some 0.65\<rparr>,
      \<lparr>type = ''image/jpeg'', quality = Some 0.6\<rparr>,
      \<lparr>type = ''image/jpeg'', quality = Some 0.55\<rparr>,
      \<lparr>type = ''image/jpeg'', quality = Some 0.5\<rparr>,
      \<lparr>type = ''image/jpeg'', quality = Some 0.45\<rparr>,
      \<lparr>type = ''image/jpeg'', quality = Some 0.4\<rparr>,
      \<lparr>type = ''image/jpeg'', quality = Some 0.35\<rparr>,
      \<lparr>type = ''image/jpeg'', quality = Some 0.3\<rparr>]"

text \<open>
  The loop of \<open>exportWithCompression\<close>. Besides the value returned (or the error thrown) the
  model returns the attempts on which \<open>canvasToBlob\<close> was called, in order.
\<close>

fun exportWithCompression_loop ::
  "platform \<Rightarrow> ImageData \<Rightarrow> real \<Rightarrow> Attempt list \<Rightarrow> Blob option \<Rightarrow> Attempt list
     \<Rightarrow> (error + Blob) \<times> Attempt list" where
  "exportWithCompression_loop P canvas mb [] candidate called =
     (case candidate of None \<Rightarrow> (Inl ExportFailed, called) | Some c \<Rightarrow> (Inr c, called))"
| "exportWithCompression_loop P canvas mb (attempt # rest) candidate called =
     (case canvasToBlob P canvas (type attempt) (quality attempt) of
        None \<Rightarrow> exportWithCompression_loop P canvas mb rest candidate (called @ [attempt])
      | Some blob \<Rightarrow>
          if real (blob_size blob) \<le> mb then (Inr blob, called @ [attempt])
          else exportWithCompression_loop P canvas mb rest (Some blob) (called @ [attempt]))"

definition exportWithCompression ::
  "platform \<Rightarrow> ImageData \<Rightarrow> real \<Rightarrow> (error + Blob) \<times> Attempt list" where
  "exportWithCompression P canvas mb = exportWithCompression_loop P canvas mb attempts None []"

definition steps :: "int list" where
  "steps = [0, 8, 16, 24, 32, 40, 48, 64, 80, 96, 112, 128, 160, 192]"

text \<open>
  The loop of \<open>exportPngWithQuantization\<close>: each step puts a fresh, quantized copy of the
  base pixels on the canvas and encodes it. The second component lists the steps that were
  encoded, in order.
\<close>

definition working :: "ImageData \<Rightarrow> int \<Rightarrow> ImageData" where
  \<comment> \<open>a copy of the base pixels, quantized when \<open>step > 0\<close>\<close>
  "working baseImageData step =
     baseImageData\<lparr>data := (if 0 < step then quantizeColors (data baseImageData) step
                              else data baseImageData)\<rparr>"

fun exportPngWithQuantization_loop ::
  "platform \<Rightarrow> ImageData \<Rightarrow> real \<Rightarrow> int list \<Rightarrow> Blob option \<Rightarrow> int list
     \<Rightarrow> Blob option \<times> int list" where
  "exportPngWithQuantization_loop P baseImageData mb [] fallback called =
     (case fallback of
        None \<Rightarrow> (None, called)
      | Some f \<Rightarrow> (if real (blob_size f) \<le> mb then Some f else None, called))"
| "exportPngWithQuantization_loop P baseImageData mb (step # rest) fallback called =
     (case canvasToBlob P (working baseImageData step) ''image/png'' None of
        None \<Rightarrow>
          exportPngWithQuantization_loop P baseImageData mb rest fallback (called @ [step])
      | Some blob \<Rightarrow>
          if real (blob_size blob) \<le> mb then (Some blob, called @ [step])
          else exportPngWithQuantization_loop P baseImageData mb rest (Some blob)
                 (called @ [step]))"

definition exportPngWithQuantization ::
  "platform \<Rightarrow> ImageData \<Rightarrow> real \<Rightarrow> Blob option \<times> int list" where
  "exportPngWithQuantization P baseImageData mb =
     exportPngWithQuantization_loop P baseImageData mb steps None []"

subsection \<open>renderToCupCanvas\<close>

record DrawRegion =
  offsetX :: real
  offsetY :: real
  drawWidth :: real
  drawHeight :: real

text \<open>
  The scale and the rectangle handed to \<open>drawImage\<close>, for an image of positive width and
  height. (For an image of width or height 0 the source's quotient is \<open>Infinity\<close>, which
  the reals below do not have; such an image has no pixels, and the rectangle only reaches
  \<open>drawImage\<close>, a parameter.)
\<close>

definition drawRegion :: "Fit \<Rightarrow> HTMLImageElement \<Rightarrow> DrawRegion" where
  "drawRegion f img =
     (let sx = fl (real CUP_WIDTH / real (image_width img));
          sy = fl (real CUP_HEIGHT / real (image_height img));
          scale = (if f = cover then max sx sy else min sx sy);
          dW = fl (real (image_width img) * scale);
          dH = fl (real (image_height img) * scale)
      in \<lparr>offsetX = fl (fl (real CUP_WIDTH - dW) / 2),
          offsetY = fl (fl (real CUP_HEIGHT - dH) / 2),
          drawWidth = dW,
          drawHeight = dH\<rparr>)"

definition toneMapped ::
  "platform \<Rightarrow> halftonePatternCache \<Rightarrow> HTMLImageElement \<Rightarrow> RenderOptions
     \<Rightarrow> ImageData \<times> halftonePatternCache" where
  \<comment> \<open>the canvas after clearing, drawing and tone mapping: \<open>baseImageData\<close>\<close>
  "toneMapped P cache img options =
     (let r = drawRegion (fit options) img;
          drawn = \<lparr>data = drawImage P img (offsetX r) (offsetY r) (drawWidth r) (drawHeight r),
                   width = CUP_WIDTH, height = CUP_HEIGHT\<rparr>
      in case (case toneMode options of None \<Rightarrow> binary | Some m \<Rightarrow> m) of
           original \<Rightarrow> (drawn, cache)
         | binary \<Rightarrow> (applyBinaryThreshold drawn (threshold options), cache)
         | sampled \<Rightarrow>
             applySampledMonochrome cache drawn (sampleDensity options) (threshold options))"

definition budget :: "RenderOptions \<Rightarrow> real" where
  \<comment> \<open>\<open>options.maxBytes ?? MAX_UPLOAD_BYTES\<close>\<close>
  "budget options = (case maxBytes options of None \<Rightarrow> MAX_UPLOAD_BYTES | Some m \<Rightarrow> m)"

definition renderToCupCanvas ::
  "platform \<Rightarrow> halftonePatternCache \<Rightarrow> HTMLImageElement \<Rightarrow> RenderOptions
     \<Rightarrow> (error + Blob) \<times> halftonePatternCache" where
  "renderToCupCanvas P cache img options =
     (if \<not> getContext P then (Inl NoCanvas, cache)
      else
        (let toned = toneMapped P cache img options;
             mb = budget options
         in if targetFormat options = Some png then
              (case fst (exportPngWithQuantization P (fst toned) mb) of
                 Some result \<Rightarrow> (Inr result, snd toned)
               | None \<Rightarrow> (Inl (PngOverBudget (Math_round (fl (mb / 1024)))), snd toned))
            else (fst (exportWithCompression P (fst toned) mb), snd toned)))"

subsection \<open>Vocabulary of the statements\<close>

definition fits :: "platform \<Rightarrow> ImageData \<Rightarrow> real \<Rightarrow> Attempt \<Rightarrow> bool" where
  \<comment> \<open>the attempt produces a blob, and the blob is within the budget\<close>
  "fits P canvas mb a =
     (case canvasToBlob P canvas (type a) (quality a) of
        None \<Rightarrow> False
      | Some blob \<Rightarrow> real (blob_size blob) \<le> mb)"

definition produced :: "platform \<Rightarrow> ImageData \<Rightarrow> Attempt list \<Rightarrow> Blob list" where
  \<comment> \<open>the blobs the attempts produce, in order\<close>
  "produced P canvas as =
     List.map_filter (\<lambda>a. canvasToBlob P canvas (type a) (quality a)) as"

definition fitsPng :: "platform \<Rightarrow> ImageData \<Rightarrow> real \<Rightarrow> int \<Rightarrow> bool" where
  \<comment> \<open>the PNG of the pixels quantized at this step exists and is within the budget\<close>
  "fitsPng P baseImageData mb step =
     (case canvasToBlob P (working baseImageData step) ''image/png'' None of
        None \<Rightarrow> False
      | Some blob \<Rightarrow> real (blob_size blob) \<le> mb)"

definition pixelValue :: "int option \<Rightarrow> 8 word list \<Rightarrow> nat \<Rightarrow> 8 word" where
  \<comment> \<open>what \<open>applyBinaryThreshold\<close> writes into the colour channels of the pixel at offset \<open>p\<close>\<close>
  "pixelValue limit d p = (if p + 2 < length d \<and> greaterEq (gray d p) limit then 255 else 0)"

definition nearestMultiple :: "int \<Rightarrow> nat \<Rightarrow> int" where
  \<comment> \<open>\<open>round(v / s) * s\<close> with \<open>round\<close> as \<open>Math.round\<close>, in exact arithmetic\<close>
  "nearestMultiple s v = \<lfloor>real v / real_of_int s + 1 / 2\<rfloor> * s"

text \<open>
  The squared distance and the angle of the block-local pixel \<open>i\<close> of a \<open>w \<times> h\<close> block,
  seen from the centre \<open>((w - 1) / 2, (h - 1) / 2)\<close>, in exact arithmetic; \<open>before\<close> orders
  pixels by distance and, at equal distance, by angle.
\<close>

definition sqDist :: "nat \<Rightarrow> nat \<Rightarrow> nat \<Rightarrow> real" where
  "sqDist w h i =
     (real (i mod w) - (real w - 1) / 2)\<^sup>2 + (real (i div w) - (real h - 1) / 2)\<^sup>2"

definition pixelAngle :: "nat \<Rightarrow> nat \<Rightarrow> nat \<Rightarrow> real" where
  "pixelAngle w h i =
     Math_atan2 (real (i div w) - (real h - 1) / 2) (real (i mod w) - (real w - 1) / 2)"

definition before :: "nat \<Rightarrow> nat \<Rightarrow> nat \<Rightarrow> nat \<Rightarrow> bool" where
  "before w h i j \<longleftrightarrow>
     sqDist w h i < sqDist w h j
     \<or> (sqDist w h i = sqDist w h j \<and> pixelAngle w h i \<le> pixelAngle w h j)"

definition entry_le :: "Entry \<Rightarrow> Entry \<Rightarrow> bool" where
  "entry_le a b \<longleftrightarrow>
     distance a < distance b \<or> (distance a = distance b \<and> angle a \<le> angle b)"

text \<open>Every pattern in the cache is the one computed for its key.\<close>

definition cache_ok :: "halftonePatternCache \<Rightarrow> bool" where
  "cache_ok cache \<longleftrightarrow>
     (\<forall>w h p. cache (cacheKey w h) = Some p \<longrightarrow> p = computePattern w h)"

definition undecimal :: "string \<Rightarrow> nat" where
  \<comment> \<open>the number a string of decimal digits denotes\<close>
  "undecimal cs = foldl (\<lambda>a c. 10 * a + (of_char c - 48)) 0 cs"

text \<open>
  \<open>painted S d d'\<close>: the buffer \<open>d'\<close> differs from \<open>d\<close> only in colour channels that now hold
  0 or 255, and every channel whose offset is in \<open>S\<close> holds 0 or 255. \<open>rectSet\<close> is the set
  of the colour-channel offsets of the pixels of a rectangle of a canvas \<open>w\<close> pixels wide.
\<close>

definition painted :: "nat set \<Rightarrow> 8 word list \<Rightarrow> 8 word list \<Rightarrow> bool" where
  "painted S d d' \<longleftrightarrow>
     length d' = length d
     \<and> (\<forall>j < length d.
           (d' ! j = d ! j \<or> (j mod 4 \<noteq> 3 \<and> d' ! j \<in> {0, 255}))
           \<and> (j \<in> S \<longrightarrow> d' ! j \<in> {0, 255}))"

definition rectSet :: "nat \<Rightarrow> nat \<Rightarrow> nat \<Rightarrow> nat \<Rightarrow> nat \<Rightarrow> nat set" where
  "rectSet w x0 x1 y0 y1 =
     {(Y * w + X) * 4 + c | X Y c. x0 \<le> X \<and> X < x1 \<and> y0 \<le> Y \<and> Y < y1 \<and> c < 3}"

definition roundoff :: real where
  \<comment> \<open>the relative error two roundings to binary64 can add up to\<close>
  "roundoff = (1 + 1 / 2 ^ 53)\<^sup>2 - 1"

subsection \<open>Sample inputs\<close>

text \<open>
  A browser whose PNG encoder always yields \<open>pngBytes\<close> bytes and whose JPEG encoder
  always yields \<open>jpegBytes\<close> bytes, and which paints every image as transparent black.
\<close>

definition fixedEncoder :: "nat \<Rightarrow> nat \<Rightarrow> platform" where
  "fixedEncoder pngBytes jpegBytes =
     \<lparr>getContext = True,
      drawImage = (\<lambda>img x y w h. replicate (4 * CUP_WIDTH * CUP_HEIGHT) 0),
      canvasToBlob = (\<lambda>canvas t q.
        if t = ''image/png'' then Some \<lparr>blob_size = pngBytes, blob_type = t\<rparr>
        else Some \<lparr>blob_size = jpegBytes, blob_type = t\<rparr>)\<rparr>"

definition plainOptions :: RenderOptions where
  "plainOptions = \<lparr>toneMode = Some original, threshold = None, sampleDensity = None,
     fit = contain, maxBytes = None, targetFormat = None\<rparr>"

definition photo :: HTMLImageElement where
  "photo = \<lparr>image_width = 1000, image_height = 1000, image_src = ''photo''\<rparr>"

definition twoPixels :: ImageData where
  "twoPixels = \<lparr>data = [10, 200, 30, 77, 250, 250, 250, 128], width = 2, height = 1\<rparr>"

definition whitePixel :: ImageData where
  "whitePixel = \<lparr>data = [255, 255, 255, 255], width = 1, height = 1\<rparr>"

definition blackPixel :: ImageData where
  "blackPixel = \<lparr>data = [0, 0, 0, 255], width = 1, height = 1\<rparr>"

definition narrowPhoto :: HTMLImageElement where
  "narrowPhoto = \<lparr>image_width = 575, image_height = 400, image_src = ''narrow''\<rparr>"

definition grayCanvas :: ImageData where
  \<comment> \<open>five by five pixels, all mid-gray and opaque\<close>
  "grayCanvas = \<lparr>data = concat (replicate 25 [128, 128, 128, 255]), width = 5, height = 5\<rparr>"

section \<open>Properties\<close>

subsection \<open>Rounding to binary64\<close>

lemma fl_zero [simp]: "fl 0 = 0"
  by (simp add: fl_def)

lemma rne_nonneg: "0 \<le> t \<Longrightarrow> 0 \<le> rne t"
  by (simp add: rne_def Let_def)

lemma fl_nonneg: "0 \<le> x \<Longrightarrow> 0 \<le> fl x"
  by (simp add: fl_def Let_def rne_nonneg sgn_if)

lemma fl_minus: "fl (- x) = - fl x"
  by (simp add: fl_def Let_def sgn_if)

lemma powi_less_cancel: "(2::real) powi a < 2 powi b \<Longrightarrow> a < b"
proof (rule ccontr)
  assume h: "(2::real) powi a < 2 powi b" and "\<not> a < b"
  then have "b \<le> a" by simp
  then have "(2::real) powi b \<le> 2 powi a" by (intro power_int_increasing) simp_all
  with h show False by simp
qed

lemma expo_bounds:
  assumes "0 < x"
  shows "2 powi (expo x) \<le> x \<and> x < 2 powi (expo x + 1)"
proof (cases "1 \<le> x")
  case True
  define n where "n = \<lfloor>x\<rfloor>"
  have n: "0 < n" using True by (simp add: n_def)
  define b where "b = bitlen n"
  from bitlen_bounds[OF n] have lo: "2 ^ nat (b - 1) \<le> n" and hi: "n < 2 ^ nat b"
    by (simp_all add: b_def)
  have b1: "1 \<le> b" using n by (simp add: b_def bitlen_def floorlog_def)
  have e: "expo x = b - 1" using True by (simp add: expo_def b_def n_def)
  have "real_of_int n \<le> x" by (simp add: n_def)
  moreover have "(2::real) ^ nat (b - 1) \<le> real_of_int n"
    using lo by (metis of_int_le_iff of_int_numeral of_int_power)
  ultimately have "(2::real) ^ nat (b - 1) \<le> x" by (rule order_trans[rotated])
  then have l: "(2::real) powi (b - 1) \<le> x"
    using b1 by (simp add: power_int_nonneg_exp)
  have "n + 1 \<le> 2 ^ nat b" using hi by simp
  then have "real_of_int (n + 1) \<le> 2 ^ nat b"
    by (metis of_int_le_iff of_int_numeral of_int_power)
  moreover have "x < real_of_int (n + 1)" by (simp add: n_def)
  ultimately have "x < (2::real) ^ nat b" by (rule less_le_trans[rotated])
  then have "x < (2::real) powi b"
    using b1 by (simp add: power_int_nonneg_exp)
  with l e show ?thesis by simp
next
  case False
  define y where "y = 1 / x"
  have y1: "1 < y" using False assms by (simp add: y_def)
  define m where "m = \<lceil>y\<rceil> - 1"
  have m: "0 < m" using y1 unfolding m_def by linarith
  define b where "b = bitlen m"
  from bitlen_bounds[OF m] have lo: "2 ^ nat (b - 1) \<le> m" and hi: "m < 2 ^ nat b"
    by (simp_all add: b_def)
  have b1: "1 \<le> b" using m by (simp add: b_def bitlen_def floorlog_def)
  have e: "expo x = - b" using False by (simp add: expo_def b_def m_def y_def)
  have my: "real_of_int m < y" and ym: "y \<le> real_of_int (m + 1)"
    unfolding m_def by linarith+
  have "m + 1 \<le> 2 ^ nat b" using hi by simp
  then have "real_of_int (m + 1) \<le> 2 ^ nat b"
    by (metis of_int_le_iff of_int_numeral of_int_power)
  with ym have "y \<le> (2::real) ^ nat b" by (rule order_trans)
  then have "y \<le> (2::real) powi b"
    using b1 by (simp add: power_int_nonneg_exp)
  then have "1 / (2::real) powi b \<le> 1 / y"
    using y1 by (intro divide_left_mono) simp_all
  moreover have xy: "1 / y = x" by (simp add: y_def)
  moreover have "(2::real) powi (- b) = 1 / 2 powi b"
    by (simp only: power_int_minus inverse_eq_divide)
  ultimately have l: "(2::real) powi (- b) \<le> x" by simp
  have "(2::real) ^ nat (b - 1) \<le> real_of_int m"
    using lo by (metis of_int_le_iff of_int_numeral of_int_power)
  with my have "(2::real) ^ nat (b - 1) < y" by (rule le_less_trans[rotated])
  then have "(2::real) powi (b - 1) < y"
    using b1 by (simp add: power_int_nonneg_exp)
  then have "1 / y < 1 / (2::real) powi (b - 1)"
    using y1 by (intro divide_strict_left_mono mult_pos_pos) simp_all
  moreover have "(2::real) powi (- (b - 1)) = 1 / 2 powi (b - 1)"
    by (simp only: power_int_minus inverse_eq_divide)
  ultimately have "x < (2::real) powi (- (b - 1))"
    using xy by simp
  with l e show ?thesis by (simp add: algebra_simps)
qed

lemma rne_error: "\<bar>real_of_int (rne t) - t\<bar> \<le> 1 / 2"
  unfolding rne_def Let_def by (auto; linarith)

lemma rne_of_int [simp]: "rne (of_int n) = n"
  by (simp add: rne_def)

lemma fl_error: "\<bar>fl x - x\<bar> \<le> \<bar>x\<bar> / 2 ^ 53"
proof (cases "x = 0")
  case True
  then show ?thesis by simp
next
  case False
  define a where "a = \<bar>x\<bar>"
  have a: "0 < a" using False by (simp add: a_def)
  define e where "e = expo a"
  define u :: real where "u = 2 powi (e - 52)"
  have u: "0 < u" by (simp add: u_def)
  from expo_bounds[OF a] have lo: "2 powi e \<le> a" by (simp add: e_def)
  have fl: "fl x = sgn x * real_of_int (rne (a / u)) * u"
    using False by (simp add: fl_def a_def e_def u_def Let_def)
  have x: "x = sgn x * (a / u) * u"
    using u by (simp add: a_def sgn_if)
  have "\<bar>fl x - x\<bar> = \<bar>sgn x * (real_of_int (rne (a / u)) - a / u) * u\<bar>"
    by (subst x, subst fl) (simp only: algebra_simps)
  also have "\<dots> = \<bar>real_of_int (rne (a / u)) - a / u\<bar> * u"
    using u False by (simp add: abs_mult sgn_if)
  also have "\<dots> \<le> 1 / 2 * u"
    using rne_error[of "a / u"] u by (intro mult_right_mono) simp_all
  also have "\<dots> = 2 powi e / 2 ^ 53"
    by (simp add: u_def power_int_diff)
  also have "\<dots> \<le> a / 2 ^ 53"
    using lo by (simp add: divide_right_mono)
  finally show ?thesis by (simp add: a_def)
qed

lemma fl_neg_iff: "fl x < 0 \<longleftrightarrow> x < 0"
proof (cases "x = 0")
  case True
  then show ?thesis by simp
next
  case False
  have "\<bar>fl x - x\<bar> \<le> \<bar>x\<bar> / 2 ^ 53" by (rule fl_error)
  moreover have "\<bar>x\<bar> / 2 ^ 53 < \<bar>x\<bar>"
    using False by (simp add: field_simps)
  ultimately have "\<bar>fl x - x\<bar> < \<bar>x\<bar>" by (rule le_less_trans)
  then show ?thesis by linarith
qed

lemma fl_upper:
  assumes "0 \<le> x"
  shows "fl x \<le> x * (1 + 1 / 2 ^ 53)"
proof -
  from fl_error[of x] assms have "fl x \<le> x + x / 2 ^ 53" by linarith
  also have "\<dots> = x * (1 + 1 / 2 ^ 53)" by (simp add: algebra_simps)
  finally show ?thesis .
qed

lemma two_roundings:
  assumes "\<bar>y - z\<bar> \<le> \<bar>z\<bar> / 2 ^ 53"
  shows "\<bar>fl y - z\<bar> \<le> \<bar>z\<bar> * roundoff"
proof -
  have "\<bar>y\<bar> \<le> \<bar>z\<bar> + \<bar>z\<bar> / 2 ^ 53" using assms by linarith
  then have "\<bar>y\<bar> / 2 ^ 53 \<le> (\<bar>z\<bar> + \<bar>z\<bar> / 2 ^ 53) / 2 ^ 53"
    by (rule divide_right_mono) simp
  with fl_error[of y] have "\<bar>fl y - y\<bar> \<le> (\<bar>z\<bar> + \<bar>z\<bar> / 2 ^ 53) / 2 ^ 53" by linarith
  with assms have "\<bar>fl y - z\<bar> \<le> \<bar>z\<bar> / 2 ^ 53 + (\<bar>z\<bar> + \<bar>z\<bar> / 2 ^ 53) / 2 ^ 53" by linarith
  also have "\<dots> = \<bar>z\<bar> * roundoff"
    by (simp add: roundoff_def power2_eq_square algebra_simps)
  finally show ?thesis .
qed

lemma fl_exact_pos:
  assumes "0 < m" and "m < 2 ^ 53"
  shows "fl (real_of_int m * 2 powi k) = real_of_int m * 2 powi k"
proof -
  define x where "x = real_of_int m * 2 powi k"
  have x: "0 < x" using assms by (simp add: x_def)
  define e where "e = expo x"
  from expo_bounds[OF x] have lo: "2 powi e \<le> x" by (simp add: e_def)
  have "real_of_int m < 2 ^ 53"
    using assms(2) by (metis of_int_less_iff of_int_numeral of_int_power)
  then have "x < 2 ^ 53 * 2 powi k"
    unfolding x_def by (intro mult_strict_right_mono) simp_all
  also have "\<dots> = 2 powi (53 + k)"
    by (simp add: power_int_add)
  finally have "(2::real) powi e < 2 powi (53 + k)" using lo by simp
  then have "e < 53 + k" by (rule powi_less_cancel)
  then have d: "0 \<le> k - (e - 52)" by simp
  have "x / 2 powi (e - 52) = real_of_int m * 2 powi (k - (e - 52))"
    by (simp add: x_def power_int_diff)
  also have "\<dots> = real_of_int (m * 2 ^ nat (k - (e - 52)))"
    using d by (simp add: power_int_nonneg_exp)
  finally have "rne (x / 2 powi (e - 52)) = m * 2 ^ nat (k - (e - 52))"
    by (simp only: rne_of_int)
  then have "fl x = real_of_int (m * 2 ^ nat (k - (e - 52))) * 2 powi (e - 52)"
    using x by (simp add: fl_def e_def Let_def)
  also have "\<dots> = real_of_int m * (2 powi (k - (e - 52)) * 2 powi (e - 52))"
    using d by (simp add: power_int_nonneg_exp)
  also have "2 powi (k - (e - 52)) * 2 powi (e - 52) = (2::real) powi k"
    by (simp flip: power_int_add)
  finally show ?thesis by (simp add: x_def)
qed

lemma fl_exact:
  assumes "\<bar>m\<bar> < 2 ^ 53"
  shows "fl (real_of_int m * 2 powi k) = real_of_int m * 2 powi k"
proof -
  consider "m = 0" | "0 < m" | "m < 0" by linarith
  then show ?thesis
  proof cases
    case 1
    then show ?thesis by simp
  next
    case 2
    with assms show ?thesis by (intro fl_exact_pos) simp_all
  next
    case 3
    with assms have "fl (real_of_int (- m) * 2 powi k) = real_of_int (- m) * 2 powi k"
      by (intro fl_exact_pos) simp_all
    then show ?thesis using fl_minus[of "real_of_int m * 2 powi k"] by simp
  qed
qed

lemma fl_of_int: "\<bar>m\<bar> < 2 ^ 53 \<Longrightarrow> fl (real_of_int m) = real_of_int m"
  using fl_exact[of m 0] by simp

lemma fl_half_int: "\<bar>m\<bar> < 2 ^ 53 \<Longrightarrow> fl (real_of_int m / 2) = real_of_int m / 2"
  using fl_exact[of m "- 1"] by (simp add: power_int_minus)

lemma fl_quarter_int: "\<bar>m\<bar> < 2 ^ 53 \<Longrightarrow> fl (real_of_int m / 4) = real_of_int m / 4"
  using fl_exact[of m "- 2"] by (simp add: power_int_minus)

lemma fl_small:
  "fl 1 = 1" "fl (1 / 2) = 1 / 2" "fl (- (1 / 2)) = - (1 / 2)" "fl (1 / 4) = 1 / 4"
  using fl_of_int[of 1] fl_half_int[of 1] fl_half_int[of "- 1"] fl_quarter_int[of 1]
  by simp_all

lemma Math_round_fl_div:
  fixes v :: nat and d :: int
  assumes d: "0 < d" and v: "v < 2 ^ 52"
  shows "Math_round (fl (real v / real_of_int d)) = \<lfloor>real v / real_of_int d + 1 / 2\<rfloor>"
proof -
  define D where "D = real_of_int d"
  define V where "V = real v"
  define q where "q = V / D"
  define k where "k = \<lfloor>q + 1 / 2\<rfloor>"
  have D: "0 < D" using d by (simp add: D_def)
  have V: "0 \<le> V" and V52: "V < 2 ^ 52" using v by (simp_all add: V_def)
  have q: "0 \<le> q" using D V by (simp add: q_def)
  have k0: "0 \<le> k" using q unfolding k_def by linarith
  have klo: "real_of_int k \<le> q + 1 / 2" and khi: "q + 1 / 2 < real_of_int k + 1"
    unfolding k_def by linarith+
  have err: "\<bar>fl q - q\<bar> \<le> q / 2 ^ 53" using fl_error[of q] q by simp
  have "V / 2 ^ 53 < 1 / 2" using V52 by simp
  then have "V / 2 ^ 53 / D < 1 / 2 / D" using D by (rule divide_strict_right_mono)
  then have small: "q / 2 ^ 53 < 1 / (2 * D)" by (simp add: q_def field_simps)
  have qD: "q * D = V" using D by (simp add: q_def)
  \<comment> \<open>upper bound\<close>
  have "q * D < (real_of_int k + 1 / 2) * D"
    using khi D by (intro mult_strict_right_mono) simp_all
  then have "2 * V < real_of_int ((2 * k + 1) * d)"
    unfolding qD by (simp add: D_def algebra_simps)
  then have "real_of_int (2 * int v) < real_of_int ((2 * k + 1) * d)"
    by (simp add: V_def)
  then have "2 * int v < (2 * k + 1) * d" by (simp only: of_int_less_iff)
  then have "2 * int v + 1 \<le> (2 * k + 1) * d" by simp
  then have "real_of_int (2 * int v + 1) \<le> real_of_int ((2 * k + 1) * d)"
    by (simp only: of_int_le_iff)
  then have "2 * V + 1 \<le> (2 * real_of_int k + 1) * D"
    by (simp add: V_def D_def)
  then have "(2 * V + 1) / (2 * D) \<le> (2 * real_of_int k + 1) * D / (2 * D)"
    using D by (intro divide_right_mono) simp_all
  moreover have "q + 1 / (2 * D) = (2 * V + 1) / (2 * D)"
    using D by (simp add: q_def field_simps)
  moreover have "real_of_int k + 1 / 2 = (2 * real_of_int k + 1) * D / (2 * D)"
    using D by (simp add: field_simps)
  ultimately have "q + 1 / (2 * D) \<le> real_of_int k + 1 / 2"
    by (simp only:)
  with err small have up: "fl q + 1 / 2 < real_of_int k + 1" by linarith
  \<comment> \<open>lower bound\<close>
  have lo: "real_of_int k \<le> fl q + 1 / 2"
  proof (cases "k = 0")
    case True
    with fl_nonneg[OF q] show ?thesis by simp
  next
    case False
    with k0 have k1: "1 \<le> k" by simp
    have "(real_of_int k - 1 / 2) * D \<le> q * D"
      using klo D by (intro mult_right_mono) simp_all
    then have "real_of_int ((2 * k - 1) * d) \<le> 2 * V"
      unfolding qD by (simp add: D_def algebra_simps)
    then have "real_of_int ((2 * k - 1) * d) \<le> real_of_int (2 * int v)"
      by (simp add: V_def)
    then have le: "(2 * k - 1) * d \<le> 2 * int v" by (simp only: of_int_le_iff)
    show ?thesis
    proof (cases "(2 * k - 1) * d = 2 * int v")
      case True
      then have "real_of_int ((2 * k - 1) * d) = real_of_int (2 * int v)" by simp
      then have "(2 * real_of_int k - 1) * D = 2 * V" by (simp add: D_def V_def)
      then have "V = (2 * real_of_int k - 1) * D / 2" by simp
      then have qe: "q = real_of_int (2 * k - 1) * 2 powi (- 1)"
        using D by (simp add: q_def power_int_minus)
      have "(2 * k - 1) * 1 \<le> (2 * k - 1) * d" using d k1 by (intro mult_left_mono) simp_all
      with True v have "\<bar>2 * k - 1\<bar> < 2 ^ 53" using k1 by simp
      from fl_exact[OF this, of "- 1"] have "fl q = q" by (simp add: qe)
      with klo show ?thesis by simp
    next
      case False
      with le have "(2 * k - 1) * d + 1 \<le> 2 * int v" by simp
      then have "real_of_int ((2 * k - 1) * d + 1) \<le> real_of_int (2 * int v)"
        by (simp only: of_int_le_iff)
      then have "(2 * real_of_int k - 1) * D + 1 \<le> 2 * V"
        by (simp add: V_def D_def)
      then have "((2 * real_of_int k - 1) * D + 1) / (2 * D) \<le> 2 * V / (2 * D)"
        using D by (intro divide_right_mono) simp_all
      moreover have "real_of_int k - 1 / 2 + 1 / (2 * D) = ((2 * real_of_int k - 1) * D + 1) / (2 * D)"
        using D by (simp add: field_simps)
      moreover have "q = 2 * V / (2 * D)"
        by (simp add: q_def)
      ultimately have "real_of_int k - 1 / 2 + 1 / (2 * D) \<le> q"
        by (simp only:)
      with err small show ?thesis by linarith
    qed
  qed
  from lo up have "\<lfloor>fl q + 1 / 2\<rfloor> = k" by linarith
  then show ?thesis
    by (simp add: Math_round_def k_def q_def V_def D_def)
qed

lemma Math_floor_fl_div:
  fixes a b :: nat
  assumes b: "0 < b" and a: "a < 2 ^ 52"
  shows "Math_floor (fl (real a / real b)) = int (a div b)"
proof -
  define q where "q = real a / real b"
  define k where "k = a div b"
  have B: "0 < real b" using b by simp
  have q0: "0 \<le> q" by (simp add: q_def)
  have err: "\<bar>fl q - q\<bar> \<le> q / 2 ^ 53" using fl_error[of q] q0 by simp
  have "real a / 2 ^ 53 < 1 / 2" using a by simp
  then have "real a / 2 ^ 53 / real b < 1 / 2 / real b" using B by (rule divide_strict_right_mono)
  then have small: "q / 2 ^ 53 < 1 / real b" using B by (simp add: q_def field_simps)
  have kb: "k * b \<le> a" and ak: "a < (k + 1) * b"
    using b by (simp_all add: k_def dividend_less_times_div mult.commute)
  \<comment> \<open>upper bound\<close>
  from ak have "a + 1 \<le> (k + 1) * b" by simp
  then have "real (a + 1) \<le> real ((k + 1) * b)" by (simp only: of_nat_le_iff)
  then have "real a + 1 \<le> (real k + 1) * real b" by (simp add: algebra_simps)
  then have "(real a + 1) / real b \<le> (real k + 1) * real b / real b"
    using B by (intro divide_right_mono) simp_all
  moreover have "(real a + 1) / real b = q + 1 / real b"
    by (simp add: q_def add_divide_distrib)
  moreover have "(real k + 1) * real b / real b = real k + 1" using B by simp
  ultimately have "q + 1 / real b \<le> real k + 1" by (simp only:)
  with err small have up: "fl q < real k + 1" by linarith
  \<comment> \<open>lower bound\<close>
  have lo: "real k \<le> fl q"
  proof (cases "k * b = a")
    case True
    then have "real a = real k * real b" by (metis of_nat_mult)
    then have "q = real_of_int (int k)" using B by (simp add: q_def)
    moreover have "\<bar>int k\<bar> < 2 ^ 53"
    proof -
      have "k \<le> a" unfolding k_def by simp
      with a show ?thesis by simp
    qed
    ultimately show ?thesis using fl_of_int[of "int k"] by simp
  next
    case False
    with kb have "k * b + 1 \<le> a" by simp
    then have "real (k * b + 1) \<le> real a" by (simp only: of_nat_le_iff)
    then have "real k * real b + 1 \<le> real a" by simp
    then have "(real k * real b + 1) / real b \<le> real a / real b"
      using B by (intro divide_right_mono) simp_all
    moreover have "(real k * real b + 1) / real b = real k + 1 / real b"
      using B by (simp add: add_divide_distrib)
    ultimately have "real k + 1 / real b \<le> q" by (simp only: q_def)
    with err small show ?thesis by linarith
  qed
  from lo up have "\<lfloor>fl q\<rfloor> = int k" by linarith
  then show ?thesis by (simp add: Math_floor_def q_def k_def)
qed

lemma fl_1_1024: "fl (1 / 1024) = 1 / 1024"
  by (simp add: fl_def expo_def rne_def compute_bitlen)

lemma fl_299: "fl 0.299 = 5386305154335113 / 18014398509481984"
  by (simp add: fl_def expo_def rne_def compute_bitlen Let_def)

lemma fl_587: "fl 0.587 = 2643612981266481 / 4503599627370496"
  by (simp add: fl_def expo_def rne_def compute_bitlen Let_def)

lemma fl_114: "fl 0.114 = 8214565720323785 / 72057594037927936"
  by (simp add: fl_def expo_def rne_def compute_bitlen Let_def)

lemma fl_596_575: "fl (596 / 575) = 4668078918109245 / 4503599627370496"
  by (simp add: fl_def expo_def rne_def compute_bitlen Let_def)

lemma fl_832_400: "fl (832 / 400) = 1170935903116329 / 562949953421312"
  by (simp add: fl_def expo_def rne_def compute_bitlen Let_def)

subsection \<open>The encoding ladders\<close>

lemma exportWithCompression_loop_eq:
  "exportWithCompression_loop P canvas mb as candidate called =
     (case List.find (fits P canvas mb) as of
        Some a \<Rightarrow>
          (Inr (the (canvasToBlob P canvas (type a) (quality a))),
           called @ takeWhile (\<lambda>a. \<not> fits P canvas mb a) as @ [a])
      | None \<Rightarrow>
          (case (if produced P canvas as = [] then candidate
                 else Some (last (produced P canvas as))) of
             None \<Rightarrow> Inl ExportFailed
           | Some c \<Rightarrow> Inr c,
           called @ as))"
proof (induction as arbitrary: candidate called)
  case Nil
  then show ?case
    by (simp add: produced_def List.map_filter_simps split: option.splits)
next
  case (Cons a as)
  show ?case
  proof (cases "canvasToBlob P canvas (type a) (quality a)")
    case None
    then show ?thesis
      using Cons.IH[of candidate "called @ [a]"]
      by (simp add: fits_def produced_def List.map_filter_simps split: option.splits)
  next
    case (Some blob)
    show ?thesis
    proof (cases "real (blob_size blob) \<le> mb")
      case True
      with Some show ?thesis by (simp add: fits_def)
    next
      case False
      with Some show ?thesis
        using Cons.IH[of "Some blob" "called @ [a]"]
        by (simp add: fits_def produced_def List.map_filter_simps split: option.splits)
    qed
  qed
qed

lemma attempts_order:
  "attempts = \<lparr>type = ''image/png'', quality = None\<rparr> #
     map (\<lambda>k. \<lparr>type = ''image/jpeg'', quality = Some ((95 - 5 * real k) / 100)\<rparr>) [0..<14]"
  by (simp add: attempts_def upt_rec)

lemma exportWithCompression_eq:
  "exportWithCompression P canvas mb =
     (case List.find (fits P canvas mb) attempts of
        Some a \<Rightarrow>
          (Inr (the (canvasToBlob P canvas (type a) (quality a))),
           takeWhile (\<lambda>a. \<not> fits P canvas mb a) attempts @ [a])
      | None \<Rightarrow>
          (if produced P canvas attempts = [] then Inl ExportFailed
           else Inr (last (produced P canvas attempts)),
           attempts))"
  using exportWithCompression_loop_eq[of P canvas mb attempts None "[]"]
  by (simp add: exportWithCompression_def split: option.splits)

lemma exportPngWithQuantization_loop_eq:
  assumes "\<And>f. fallback = Some f \<Longrightarrow> \<not> real (blob_size f) \<le> mb"
  shows "exportPngWithQuantization_loop P base mb ss fallback called =
     (case List.find (fitsPng P base mb) ss of
        Some s \<Rightarrow>
          (canvasToBlob P (working base s) ''image/png'' None,
           called @ takeWhile (\<lambda>s. \<not> fitsPng P base mb s) ss @ [s])
      | None \<Rightarrow> (None, called @ ss))"
  using assms
proof (induction ss arbitrary: fallback called)
  case Nil
  then show ?case by (auto split: option.splits)
next
  case (Cons s ss)
  show ?case
  proof (cases "canvasToBlob P (working base s) ''image/png'' None")
    case None
    then show ?thesis
      using Cons.IH[of fallback "called @ [s]"] Cons.prems
      by (simp add: fitsPng_def split: option.splits)
  next
    case (Some blob)
    show ?thesis
    proof (cases "real (blob_size blob) \<le> mb")
      case True
      with Some show ?thesis by (simp add: fitsPng_def)
    next
      case False
      with Some show ?thesis
        using Cons.IH[of "Some blob" "called @ [s]"]
        by (simp add: fitsPng_def split: option.splits)
    qed
  qed
qed

lemma exportPngWithQuantization_eq:
  "exportPngWithQuantization P base mb =
     (case List.find (fitsPng P base mb) steps of
        Some s \<Rightarrow>
          (canvasToBlob P (working base s) ''image/png'' None,
           takeWhile (\<lambda>s. \<not> fitsPng P base mb s) steps @ [s])
      | None \<Rightarrow> (None, steps))"
  using exportPngWithQuantization_loop_eq[of None mb P base steps "[]"]
  by (simp add: exportPngWithQuantization_def split: option.splits)

lemma find_fitsPng_Some:
  "List.find (fitsPng P base mb) ss = Some s \<Longrightarrow>
   \<exists>blob. canvasToBlob P (working base s) ''image/png'' None = Some blob \<and> real (blob_size blob) \<le> mb"
  by (auto simp: find_Some_iff fitsPng_def split: option.splits)

lemma produced_mem:
  "b \<in> set (produced P canvas as) \<Longrightarrow>
   \<exists>a \<in> set as. canvasToBlob P canvas (type a) (quality a) = Some b"
  by (auto simp: produced_def List.map_filter_def)

lemma render_png_eq:
  assumes "getContext P" and "targetFormat options = Some png"
  shows "fst (renderToCupCanvas P cache img options) =
     (case List.find (fitsPng P (fst (toneMapped P cache img options)) (budget options)) steps of
        Some s \<Rightarrow>
          Inr (the (canvasToBlob P (working (fst (toneMapped P cache img options)) s)
                      ''image/png'' None))
      | None \<Rightarrow> Inl (PngOverBudget (Math_round (fl (budget options / 1024)))))"
proof (cases "List.find (fitsPng P (fst (toneMapped P cache img options)) (budget options)) steps")
  case None
  then show ?thesis
    using assms by (simp add: renderToCupCanvas_def exportPngWithQuantization_eq Let_def)
next
  case (Some s)
  from find_fitsPng_Some[OF Some] obtain blob where
    "canvasToBlob P (working (fst (toneMapped P cache img options)) s) ''image/png'' None = Some blob"
    by blast
  with Some show ?thesis
    using assms by (simp add: renderToCupCanvas_def exportPngWithQuantization_eq Let_def)
qed

lemma render_lossy_eq:
  assumes "getContext P" and "targetFormat options \<noteq> Some png"
  shows "fst (renderToCupCanvas P cache img options) =
     fst (exportWithCompression P (fst (toneMapped P cache img options)) (budget options))"
  using assms by (simp add: renderToCupCanvas_def Let_def)

lemma render_context:
  "fst (renderToCupCanvas P cache img options) = Inr blob \<Longrightarrow> getContext P"
  by (auto simp: renderToCupCanvas_def split: if_splits)

text \<open>
  C2. In the lossy path (a render whose target format is not \<open>png\<close> returns what
  \<open>exportWithCompression\<close> returns) the attempts are, in this order, PNG and then JPEG at
  the qualities 0.95, 0.90, ..., 0.30. \<open>canvasToBlob\<close> is called on the
  attempts up to and including the first one that produces a blob within the budget, and
  that blob is returned. When no attempt does, all fifteen are made; the last blob produced
  is returned, and \<open>ExportFailed\<close> is raised only when none produced a blob.
\<close>

theorem exportWithCompression_ladder:
  "attempts = \<lparr>type = ''image/png'', quality = None\<rparr> #
     map (\<lambda>k. \<lparr>type = ''image/jpeg'', quality = Some ((95 - 5 * real k) / 100)\<rparr>) [0..<14]
   \<and> exportWithCompression P canvas mb =
     (case List.find (fits P canvas mb) attempts of
        Some a \<Rightarrow>
          (Inr (the (canvasToBlob P canvas (type a) (quality a))),
           takeWhile (\<lambda>a. \<not> fits P canvas mb a) attempts @ [a])
      | None \<Rightarrow>
          (if produced P canvas attempts = [] then Inl ExportFailed
           else Inr (last (produced P canvas attempts)),
           attempts))
   \<and> (getContext P \<and> targetFormat options \<noteq> Some png \<longrightarrow>
        fst (renderToCupCanvas P cache img options) =
          fst (exportWithCompression P (fst (toneMapped P cache img options)) (budget options)))"
  using attempts_order exportWithCompression_eq render_lossy_eq by simp

theorem exportWithCompression_ladder_witness:
  "exportWithCompression (fixedEncoder 900 100) \<lparr>data = [], width = 0, height = 0\<rparr> 200 =
     (Inr \<lparr>blob_size = 100, blob_type = ''image/jpeg''\<rparr>,
      [\<lparr>type = ''image/png'', quality = None\<rparr>, \<lparr>type = ''image/jpeg'', quality = Some 0.95\<rparr>])
   \<and> fst (renderToCupCanvas (fixedEncoder 900 100) Map.empty photo plainOptions) =
       Inr \<lparr>blob_size = 900, blob_type = ''image/png''\<rparr>"
proof -
  note l = exportWithCompression_ladder[of "fixedEncoder 900 100" _ _ plainOptions Map.empty photo]
  have "exportWithCompression (fixedEncoder 900 100) \<lparr>data = [], width = 0, height = 0\<rparr> 200 =
     (Inr \<lparr>blob_size = 100, blob_type = ''image/jpeg''\<rparr>,
      [\<lparr>type = ''image/png'', quality = None\<rparr>, \<lparr>type = ''image/jpeg'', quality = Some 0.95\<rparr>])"
    using l[of "\<lparr>data = [], width = 0, height = 0\<rparr>" 200]
    by (simp add: attempts_def fits_def fixedEncoder_def)
  moreover have "fst (renderToCupCanvas (fixedEncoder 900 100) Map.empty photo plainOptions) =
       Inr \<lparr>blob_size = 900, blob_type = ''image/png''\<rparr>"
    using l[of "fst (toneMapped (fixedEncoder 900 100) Map.empty photo plainOptions)"
        "budget plainOptions"]
    by (simp add: attempts_def fits_def fixedEncoder_def plainOptions_def budget_def
        MAX_UPLOAD_BYTES_def)
  ultimately show ?thesis by simp
qed

text \<open>
  C3, as stated, has the error report the configured budget. The error message holds
  \<open>Math.round(maxBytes / 1024)\<close>, the budget in whole kilobytes: with a budget of 1 byte
  it reports 0, and with a budget of 500 bytes it reports 0 as well, so the budget cannot
  be read off the error.
\<close>

theorem render_png_error_counterexample:
  "fst (renderToCupCanvas (fixedEncoder 300000 250000) Map.empty photo
          (plainOptions\<lparr>maxBytes := Some 1, targetFormat := Some png\<rparr>)) = Inl (PngOverBudget 0)
   \<and> fst (renderToCupCanvas (fixedEncoder 300000 250000) Map.empty photo
          (plainOptions\<lparr>maxBytes := Some 500, targetFormat := Some png\<rparr>)) = Inl (PngOverBudget 0)
   \<and> budget (plainOptions\<lparr>maxBytes := Some 1, targetFormat := Some png\<rparr>) = 1
   \<and> budget (plainOptions\<lparr>maxBytes := Some 500, targetFormat := Some png\<rparr>) = 500"
proof -
  have f: "fl (125 / 256) = 125 / 256"
    by (simp add: fl_def expo_def rne_def compute_bitlen Let_def)
  have "Math_round (fl (125 / 256)) = 0"
    unfolding f Math_round_def by simp
  moreover have "Math_round (fl (1 / 1024)) = 0"
    by (simp add: fl_1_1024 Math_round_def)
  ultimately show ?thesis
    by (simp add: render_png_eq fixedEncoder_def plainOptions_def budget_def fitsPng_def
        steps_def)
qed

text \<open>
  C3, amended. In the lossless path (\<open>targetFormat = png\<close>) the fourteen quantization steps
  0, 8, ..., 192 are encoded in this order up to and including the first whose blob is
  within the budget, and that blob is the result. When no step's blob is within the budget
  the render fails with \<open>PngOverBudget\<close>, which carries the budget in whole kilobytes,
  \<open>Math.round(maxBytes / 1024)\<close>; a blob over the budget is never returned.
\<close>

theorem exportPngWithQuantization_ladder:
  assumes "getContext P" and "targetFormat options = Some png"
    and "base = fst (toneMapped P cache img options)" and "mb = budget options"
  shows "steps = [0, 8, 16, 24, 32, 40, 48, 64, 80, 96, 112, 128, 160, 192]
    \<and> length steps = 14
    \<and> exportPngWithQuantization P base mb =
        (case List.find (fitsPng P base mb) steps of
           Some s \<Rightarrow>
             (canvasToBlob P (working base s) ''image/png'' None,
              takeWhile (\<lambda>s. \<not> fitsPng P base mb s) steps @ [s])
         | None \<Rightarrow> (None, steps))
    \<and> fst (renderToCupCanvas P cache img options) =
        (case List.find (fitsPng P base mb) steps of
           Some s \<Rightarrow> Inr (the (canvasToBlob P (working base s) ''image/png'' None))
         | None \<Rightarrow> Inl (PngOverBudget (Math_round (fl (mb / 1024)))))
    \<and> (case fst (renderToCupCanvas P cache img options) of
          Inr blob \<Rightarrow> real (blob_size blob) \<le> mb
        | Inl e \<Rightarrow> e = PngOverBudget (Math_round (fl (mb / 1024))))"
proof -
  have r: "fst (renderToCupCanvas P cache img options) =
        (case List.find (fitsPng P base mb) steps of
           Some s \<Rightarrow> Inr (the (canvasToBlob P (working base s) ''image/png'' None))
         | None \<Rightarrow> Inl (PngOverBudget (Math_round (fl (mb / 1024)))))"
    using render_png_eq[OF assms(1,2), of cache img] unfolding assms(3,4) by simp
  have b: "case fst (renderToCupCanvas P cache img options) of
          Inr blob \<Rightarrow> real (blob_size blob) \<le> mb
        | Inl e \<Rightarrow> e = PngOverBudget (Math_round (fl (mb / 1024)))"
  proof (cases "List.find (fitsPng P base mb) steps")
    case None
    with r show ?thesis by simp
  next
    case (Some s)
    from find_fitsPng_Some[OF Some] r Some show ?thesis by auto
  qed
  show ?thesis
    using r b exportPngWithQuantization_eq[of P base mb] by (simp add: steps_def)
qed

theorem exportPngWithQuantization_ladder_witness:
  "fst (renderToCupCanvas (fixedEncoder 900 100) Map.empty photo
          (plainOptions\<lparr>maxBytes := Some 1, targetFormat := Some png\<rparr>)) = Inl (PngOverBudget 0)
   \<and> snd (exportPngWithQuantization (fixedEncoder 900 100)
        (fst (toneMapped (fixedEncoder 900 100) Map.empty photo
               (plainOptions\<lparr>maxBytes := Some 1, targetFormat := Some png\<rparr>))) 1) = steps"
  using exportPngWithQuantization_ladder[of "fixedEncoder 900 100"
      "plainOptions\<lparr>maxBytes := Some 1, targetFormat := Some png\<rparr>"
      "fst (toneMapped (fixedEncoder 900 100) Map.empty photo
               (plainOptions\<lparr>maxBytes := Some 1, targetFormat := Some png\<rparr>))"
      Map.empty photo 1]
  by (simp add: fixedEncoder_def plainOptions_def budget_def fitsPng_def fl_1_1024 Math_round_def steps_def)

text \<open>
  C1, as stated, fails: with the default options (lossy path, budget \<open>200 * 1024\<close>) and
  an encoder whose every blob is over the budget, the render succeeds and returns the last
  blob, of 250000 bytes.
\<close>

theorem render_over_budget_counterexample:
  "fst (renderToCupCanvas (fixedEncoder 300000 250000) Map.empty photo plainOptions) =
     Inr \<lparr>blob_size = 250000, blob_type = ''image/jpeg''\<rparr>
   \<and> \<not> real (blob_size \<lparr>blob_size = 250000, blob_type = ''image/jpeg''\<rparr>) \<le> budget plainOptions"
  by (simp add: render_lossy_eq exportWithCompression_eq fixedEncoder_def plainOptions_def
      budget_def MAX_UPLOAD_BYTES_def attempts_def fits_def produced_def List.map_filter_simps)

text \<open>
  C1, amended. A successful render returns a blob within the budget exactly when the target
  format is \<open>png\<close> or at least one of the fifteen lossy attempts produces a blob within
  the budget; otherwise (lossy path, every attempt over budget) the returned blob is over
  the budget.
\<close>

theorem render_within_budget_iff:
  assumes "fst (renderToCupCanvas P cache img options) = Inr blob"
  shows "real (blob_size blob) \<le> budget options \<longleftrightarrow>
     (targetFormat options = Some png
      \<or> (\<exists>a \<in> set attempts. fits P (fst (toneMapped P cache img options)) (budget options) a))"
proof -
  let ?canvas = "fst (toneMapped P cache img options)"
  let ?mb = "budget options"
  have ctx: "getContext P" using assms by (rule render_context)
  show ?thesis
  proof (cases "targetFormat options = Some png")
    case True
    have "real (blob_size blob) \<le> ?mb"
    proof (cases "List.find (fitsPng P ?canvas ?mb) steps")
      case None
      with render_png_eq[OF ctx True, of cache img] assms show ?thesis by simp
    next
      case (Some s)
      with render_png_eq[OF ctx True, of cache img] assms find_fitsPng_Some[OF Some]
      show ?thesis by auto
    qed
    with True show ?thesis by simp
  next
    case False
    have e: "fst (exportWithCompression P ?canvas ?mb) = Inr blob"
      using render_lossy_eq[OF ctx False, of cache img] assms by simp
    show ?thesis
    proof (cases "List.find (fits P ?canvas ?mb) attempts")
      case None
      then have none: "\<forall>a \<in> set attempts. \<not> fits P ?canvas ?mb a"
        by (simp add: find_None_iff)
      from e None have ne: "produced P ?canvas attempts \<noteq> []"
        and bl: "blob = last (produced P ?canvas attempts)"
        by (auto simp: exportWithCompression_eq split: if_splits)
      then have "blob \<in> set (produced P ?canvas attempts)" by simp
      then obtain a where a: "a \<in> set attempts"
        and ab: "canvasToBlob P ?canvas (type a) (quality a) = Some blob"
        using produced_mem by blast
      from none a have "\<not> fits P ?canvas ?mb a" by blast
      with ab have "\<not> real (blob_size blob) \<le> ?mb"
        by (simp add: fits_def)
      with none False show ?thesis by simp
    next
      case (Some a)
      then have a: "a \<in> set attempts" and f: "fits P ?canvas ?mb a"
        by (auto simp: find_Some_iff)
      from e Some f have "canvasToBlob P ?canvas (type a) (quality a) = Some blob"
        by (auto simp: exportWithCompression_eq fits_def split: option.splits)
      with f have "real (blob_size blob) \<le> ?mb"
        by (simp add: fits_def)
      moreover from a f have "\<exists>a \<in> set attempts. fits P ?canvas ?mb a"
        by blast
      ultimately show ?thesis by simp
    qed
  qed
qed

theorem render_within_budget_iff_witness:
  "fst (renderToCupCanvas (fixedEncoder 900 100) Map.empty photo (plainOptions\<lparr>maxBytes := Some 200\<rparr>))
     = Inr \<lparr>blob_size = 100, blob_type = ''image/jpeg''\<rparr>
   \<and> real (blob_size \<lparr>blob_size = 100, blob_type = ''image/jpeg''\<rparr>)
       \<le> budget (plainOptions\<lparr>maxBytes := Some 200\<rparr>)"
proof -
  have r: "fst (renderToCupCanvas (fixedEncoder 900 100) Map.empty photo (plainOptions\<lparr>maxBytes := Some 200\<rparr>))
        = Inr \<lparr>blob_size = 100, blob_type = ''image/jpeg''\<rparr>"
    by (simp add: render_lossy_eq exportWithCompression_eq fixedEncoder_def plainOptions_def
      budget_def attempts_def fits_def)
  from render_within_budget_iff[OF r] have "real (blob_size \<lparr>blob_size = 100, blob_type = ''image/jpeg''\<rparr>)
       \<le> budget (plainOptions\<lparr>maxBytes := Some 200\<rparr>)"
    by (simp add: fixedEncoder_def plainOptions_def budget_def attempts_def fits_def)
  with r show ?thesis by simp
qed

subsection \<open>Binary threshold\<close>

lemma length_applyBinaryThreshold_loop [simp]:
  "length (applyBinaryThreshold_loop limit i d) = length d"
proof (induction limit i d rule: applyBinaryThreshold_loop.induct)
  case (1 limit i d)
  show ?case
    using 1 by (subst applyBinaryThreshold_loop.simps) (simp add: Let_def)
qed

lemma applyBinaryThreshold_loop_nth:
  "j < length d \<Longrightarrow>
   applyBinaryThreshold_loop limit i d ! j =
     (if i \<le> j \<and> (j - i) mod 4 \<noteq> 3 then pixelValue limit d (j - (j - i) mod 4) else d ! j)"
proof (induction limit i d arbitrary: j rule: applyBinaryThreshold_loop.induct)
  case (1 limit i d)
  show ?case
  proof (cases "i < length d")
    case False
    with "1.prems" show ?thesis by (subst applyBinaryThreshold_loop.simps) simp
  next
    case True
    define v :: "8 word" where
      "v = (if i + 2 < length d \<and> greaterEq (gray d i) limit then 255 else 0)"
    define d' where "d' = d[i + 2 := v, i + 1 := v, i := v]"
    have len: "length d' = length d" by (simp add: d'_def)
    have unfold: "applyBinaryThreshold_loop limit i d = applyBinaryThreshold_loop limit (i + 4) d'"
      using True by (subst applyBinaryThreshold_loop.simps) (simp add: v_def d'_def Let_def)
    have IH: "applyBinaryThreshold_loop limit (i + 4) d' ! j =
       (if i + 4 \<le> j \<and> (j - (i + 4)) mod 4 \<noteq> 3
        then pixelValue limit d' (j - (j - (i + 4)) mod 4) else d' ! j)"
      using "1.IH"[OF True v_def, of j] "1.prems" len by (simp add: d'_def)
    have far: "pixelValue limit d' p = pixelValue limit d p" if "i + 4 \<le> p" for p
      using that by (simp add: pixelValue_def d'_def gray_def)
    have v: "v = pixelValue limit d i" by (simp add: v_def pixelValue_def)
    show ?thesis
    proof (cases "i + 4 \<le> j")
      case True
      then have m: "(j - (i + 4)) mod 4 = (j - i) mod 4"
      proof -
        from True obtain k where k: "j = i + 4 + k" using le_Suc_ex by blast
        show ?thesis unfolding k by simp
      qed
      have "i + 4 \<le> j - (j - i) mod 4"
      proof -
        have "(j - (i + 4)) mod 4 \<le> j - (i + 4)"
          by (rule mod_less_eq_dividend)
        with True m show ?thesis by linarith
      qed
      moreover have "d' ! j = d ! j"
        using True by (simp add: d'_def)
      ultimately show ?thesis
        using True m unfolding unfold IH by (simp add: far)
    next
      case False
      show ?thesis
      proof (cases "i \<le> j")
        case True
        with False consider "j = i" | "j = i + 1" | "j = i + 2" | "j = i + 3" by linarith
        then show ?thesis
          using "1.prems" unfolding unfold IH
          by cases (simp_all add: d'_def v)
      next
        case False
        with "1.prems" show ?thesis
          unfolding unfold IH by (simp add: d'_def)
      qed
    qed
  qed
qed

lemma gray_nonneg: "0 \<le> gray d p"
  unfolding gray_def
  by (intro fl_nonneg add_nonneg_nonneg mult_nonneg_nonneg) (simp_all del: of_nat_unat)

lemma gray_black:
  "d ! p = 0 \<Longrightarrow> d ! (p + 1) = 0 \<Longrightarrow> d ! (p + 2) = 0 \<Longrightarrow> gray d p = 0"
  by (simp add: gray_def)

lemma gray_white:
  "d ! p = 255 \<Longrightarrow> d ! (p + 1) = 255 \<Longrightarrow> d ! (p + 2) = 255 \<Longrightarrow> gray d p = 255"
  by (simp add: gray_def fl_299 fl_587 fl_114)
     (simp add: fl_def expo_def rne_def compute_bitlen Let_def)

lemma applyBinaryThreshold_data:
  "data (applyBinaryThreshold im t) =
     applyBinaryThreshold_loop (clampLimit (case t of None \<Rightarrow> Finite 170 | Some x \<Rightarrow> x)) 0
       (data im)"
  by (simp add: applyBinaryThreshold_def Let_def)

lemma applyBinaryThreshold_nth:
  "j < length d \<Longrightarrow>
   applyBinaryThreshold_loop limit 0 d ! j =
     (if j mod 4 \<noteq> 3 then pixelValue limit d (j - j mod 4) else d ! j)"
  by (simp add: applyBinaryThreshold_loop_nth)

lemma clampLimit_range: "clampLimit t = Some k \<Longrightarrow> 0 \<le> k \<and> k \<le> 255"
  by (cases t) auto

lemma clampLimit_None: "clampLimit t = None \<longleftrightarrow> t = NaN"
  by (cases t) simp_all

lemma clampLimit_int: "0 \<le> k \<Longrightarrow> k \<le> 255 \<Longrightarrow> clampLimit (Finite (of_int k)) = Some k"
  by (simp add: Math_round_def)

lemma clampLimit_clampLimit:
  "clampLimit t = Some k \<Longrightarrow> clampLimit (Finite (of_int k)) = Some k"
  using clampLimit_range[of t k] by (simp add: Math_round_def)

lemma clampLimit_high: "255 \<le> t \<Longrightarrow> clampLimit (Finite t) = Some 255"
proof -
  assume "255 \<le> t"
  then have "255 \<le> \<lfloor>t + 1 / 2\<rfloor>" by linarith
  then show ?thesis by (simp add: Math_round_def)
qed

lemma clampLimit_low: "t \<le> 0 \<Longrightarrow> clampLimit (Finite t) = Some 0"
proof -
  assume "t \<le> 0"
  then have "\<lfloor>t + 1 / 2\<rfloor> \<le> 0" by linarith
  then show ?thesis by (simp add: Math_round_def)
qed

lemma greaterEq_mono: "greaterEq a limit \<Longrightarrow> a \<le> b \<Longrightarrow> greaterEq b limit"
  by (auto simp: greaterEq_def split: option.splits)

lemma pixelValue_cases: "pixelValue limit d p = 0 \<or> pixelValue limit d p = 255"
  by (simp add: pixelValue_def)

lemma applyBinaryThreshold_loop_idem:
  assumes "\<And>k. limit = Some k \<Longrightarrow> k \<le> 255"
  shows "applyBinaryThreshold_loop limit 0 (applyBinaryThreshold_loop limit 0 d) =
         applyBinaryThreshold_loop limit 0 d"
proof (rule nth_equalityI)
  show "length (applyBinaryThreshold_loop limit 0 (applyBinaryThreshold_loop limit 0 d)) =
        length (applyBinaryThreshold_loop limit 0 d)" by simp
next
  fix j
  let ?out = "applyBinaryThreshold_loop limit 0 d"
  assume "j < length (applyBinaryThreshold_loop limit 0 ?out)"
  then have j: "j < length d" by simp
  show "applyBinaryThreshold_loop limit 0 ?out ! j = ?out ! j"
  proof (cases "j mod 4 = 3")
    case True
    with j show ?thesis by (simp add: applyBinaryThreshold_nth)
  next
    case False
    define p where "p = j - j mod 4"
    have p4: "p mod 4 = 0" unfolding p_def by (simp add: minus_mod_eq_mult_div)
    have same: "pixelValue limit ?out p = pixelValue limit d p"
    proof (cases "p + 2 < length d")
      case False
      then show ?thesis by (simp add: pixelValue_def)
    next
      case True
      have b0: "(p - p mod 4) = p" using p4 by simp
      have m1: "(p + 1) mod 4 = 1" and m2: "(p + 2) mod 4 = 2"
        using p4 by presburger+
      have o0: "?out ! p = pixelValue limit d p"
        using True p4 by (simp add: applyBinaryThreshold_nth)
      have o1: "?out ! (p + 1) = pixelValue limit d p"
        using True m1 applyBinaryThreshold_nth[of "p + 1" d limit] by simp
      have o2: "?out ! (p + 2) = pixelValue limit d p"
        using True m2 applyBinaryThreshold_nth[of "p + 2" d limit] by simp
      from pixelValue_cases[of limit d p] show ?thesis
      proof
        assume z: "pixelValue limit d p = 0"
        then have "\<not> greaterEq (gray d p) limit"
          using True by (simp add: pixelValue_def split: if_splits)
        with greaterEq_mono[OF _ gray_nonneg[of d p]] have "\<not> greaterEq 0 limit" by blast
        moreover have "gray ?out p = 0"
          using o0 o1 o2 z by (intro gray_black) simp_all
        ultimately show ?thesis using z by (simp add: pixelValue_def)
      next
        assume w: "pixelValue limit d p = 255"
        then have "greaterEq (gray d p) limit"
          by (simp add: pixelValue_def split: if_splits)
        then obtain k where k: "limit = Some k"
          by (auto simp: greaterEq_def split: option.splits)
        from assms[OF k] have "greaterEq 255 limit"
          by (simp add: greaterEq_def k)
        moreover have "gray ?out p = 255"
          using o0 o1 o2 w by (intro gray_white) simp_all
        ultimately show ?thesis using True w by (simp add: pixelValue_def)
      qed
    qed
    from j False show ?thesis
      by (simp add: applyBinaryThreshold_nth same flip: p_def)
  qed
qed

lemma gray_twoPixels_0: "gray (data twoPixels) 0 < 170"
  by (simp add: twoPixels_def gray_def fl_299 fl_587 fl_114)
     (simp add: fl_def expo_def rne_def compute_bitlen Let_def)

lemma gray_twoPixels_4: "170 \<le> gray (data twoPixels) 4"
  by (simp add: twoPixels_def gray_def fl_299 fl_587 fl_114)
     (simp add: fl_def expo_def rne_def compute_bitlen Let_def)

text \<open>
  C5, amended. Binary threshold transforms every pixel pointwise: with the luminance \<open>L\<close>
  computed (in double precision, as the source writes it) from the pixel's original
  channels, the three colour channels become 255 if \<open>L \<ge> limit\<close> and 0 otherwise, where
  \<open>limit\<close> is the threshold (170 when absent) rounded to the nearest integer and clamped
  to \<open>[0, 255]\<close>; the alpha channel is unchanged. For an integer threshold in \<open>0..255\<close>
  the limit is the threshold itself. (An infinite threshold has the limit 0 or 255; for
  the threshold \<open>NaN\<close> the limit is \<open>NaN\<close>, no luminance reaches it, and every pixel
  becomes black.)
\<close>

theorem applyBinaryThreshold_pointwise:
  assumes "4 * p + 3 < length (data imageData)"
  shows "(let L = gray (data imageData) (4 * p);
              limit = clampLimit (case t of None \<Rightarrow> Finite 170 | Some x \<Rightarrow> x);
              v = (case limit of
                     Some l \<Rightarrow> if real_of_int l \<le> L then 255 else 0
                   | None \<Rightarrow> 0);
              out = data (applyBinaryThreshold imageData t)
          in out ! (4 * p) = v \<and> out ! (4 * p + 1) = v \<and> out ! (4 * p + 2) = v
             \<and> out ! (4 * p + 3) = data imageData ! (4 * p + 3)
             \<and> length out = length (data imageData))
         \<and> (\<forall>x. clampLimit (Finite x) = Some (max 0 (min 255 (Math_round x))))
         \<and> (\<forall>k. 0 \<le> k \<and> k \<le> 255 \<longrightarrow> clampLimit (Finite (of_int k)) = Some k)"
proof -
  have m: "(4 * p) mod 4 = 0" "(4 * p + 1) mod 4 = 1" "(4 * p + 2) mod 4 = 2"
    "(4 * p + 3) mod 4 = 3" by presburger+
  show ?thesis
    using assms m
    by (simp add: Let_def applyBinaryThreshold_data applyBinaryThreshold_nth pixelValue_def
        greaterEq_def Math_round_def split: option.splits)
qed

theorem applyBinaryThreshold_pointwise_witness:
  "data (applyBinaryThreshold twoPixels (Some (Finite 170))) ! 0 = 0
   \<and> data (applyBinaryThreshold twoPixels (Some (Finite 170))) ! 3 = 77
   \<and> data (applyBinaryThreshold twoPixels (Some (Finite 170))) ! 4 = 255
   \<and> data (applyBinaryThreshold twoPixels (Some (Finite 170))) ! 5 = 255
   \<and> data (applyBinaryThreshold twoPixels (Some (Finite 170))) ! 6 = 255
   \<and> data (applyBinaryThreshold twoPixels (Some (Finite 170))) ! 7 = 128"
  using applyBinaryThreshold_pointwise[of 0 twoPixels "Some (Finite 170)"]
    applyBinaryThreshold_pointwise[of 1 twoPixels "Some (Finite 170)"]
    gray_twoPixels_0 gray_twoPixels_4
  by (simp add: Let_def Math_round_def) (simp add: twoPixels_def)

text \<open>
  C5, as stated, compares the luminance with the threshold itself. It fails for a threshold
  that is not an integer of \<open>0..255\<close>: at threshold 300 a white pixel (luminance 255,
  below 300) stays white, and at threshold 0.4 a black pixel (luminance 0, below 0.4)
  becomes white.
\<close>

theorem applyBinaryThreshold_threshold_counterexample:
  "data (applyBinaryThreshold whitePixel (Some (Finite 300))) ! 0 = 255
   \<and> \<not> 300 \<le> gray (data whitePixel) 0
   \<and> data (applyBinaryThreshold blackPixel (Some (Finite 0.4))) ! 0 = 255
   \<and> \<not> 0.4 \<le> gray (data blackPixel) 0"
proof -
  have w: "gray (data whitePixel) 0 = 255"
    by (rule gray_white) (simp_all add: whitePixel_def)
  have b: "gray (data blackPixel) 0 = 0"
    by (rule gray_black) (simp_all add: blackPixel_def)
  have "clampLimit (Finite 300) = Some 255" by (rule clampLimit_high) simp
  moreover have "clampLimit (Finite 0.4) = Some 0" by (simp add: Math_round_def)
  moreover have "length (data whitePixel) = 4" "length (data blackPixel) = 4"
    by (simp_all add: whitePixel_def blackPixel_def)
  ultimately show ?thesis
    using w b
    by (simp add: applyBinaryThreshold_data applyBinaryThreshold_nth pixelValue_def
        greaterEq_def del: clampLimit.simps)
qed

text \<open>
  C6. For every buffer and every threshold (absent, finite, infinite or \<open>NaN\<close>), each
  colour channel of the output of binary threshold is 0 or 255, and applying binary
  threshold again with the same threshold changes nothing.
\<close>

theorem applyBinaryThreshold_idempotent:
  "(\<forall>j < length (data imageData). j mod 4 \<noteq> 3 \<longrightarrow>
       data (applyBinaryThreshold imageData t) ! j \<in> {0, 255})
   \<and> applyBinaryThreshold (applyBinaryThreshold imageData t) t =
       applyBinaryThreshold imageData t"
proof
  show "\<forall>j < length (data imageData). j mod 4 \<noteq> 3 \<longrightarrow>
       data (applyBinaryThreshold imageData t) ! j \<in> {0, 255}"
    using pixelValue_cases by (auto simp: applyBinaryThreshold_data applyBinaryThreshold_nth)
next
  have "k \<le> 255" if "clampLimit (case t of None \<Rightarrow> Finite 170 | Some x \<Rightarrow> x) = Some k" for k
    using clampLimit_range[OF that] by simp
  from applyBinaryThreshold_loop_idem[OF this, of _ "data imageData"]
  show "applyBinaryThreshold (applyBinaryThreshold imageData t) t =
       applyBinaryThreshold imageData t"
    by (simp add: applyBinaryThreshold_def Let_def)
qed

theorem applyBinaryThreshold_idempotent_witness:
  "data (applyBinaryThreshold twoPixels (Some (Finite 170))) ! 4 \<in> {0, 255}
   \<and> applyBinaryThreshold (applyBinaryThreshold twoPixels (Some (Finite 170))) (Some (Finite 170)) =
       applyBinaryThreshold twoPixels (Some (Finite 170))
   \<and> data (applyBinaryThreshold twoPixels (Some NaN)) ! 4 \<in> {0, 255}
   \<and> applyBinaryThreshold (applyBinaryThreshold twoPixels (Some NaN)) (Some NaN) =
       applyBinaryThreshold twoPixels (Some NaN)"
  using applyBinaryThreshold_idempotent[of twoPixels "Some (Finite 170)"]
    applyBinaryThreshold_idempotent[of twoPixels "Some NaN"]
  by (auto simp: twoPixels_def)

subsection \<open>Quantization\<close>

lemma byte_bound: "unat (w :: 8 word) < 256"
  using unsigned_less[of w, where 'a = nat] by simp

lemma toUint8Clamp_of_int:
  "0 \<le> n \<Longrightarrow> n \<le> 255 \<Longrightarrow> toUint8Clamp (real_of_int n) = word_of_int n"
proof -
  assume "0 \<le> n" "n \<le> 255"
  then have "max 0 (min 255 (real_of_int n)) = real_of_int n" by simp
  then show ?thesis by (simp only: toUint8Clamp_def rne_of_int)
qed

lemma unat_byte_of_int:
  "0 \<le> n \<Longrightarrow> n \<le> 255 \<Longrightarrow> unat (word_of_int n :: 8 word) = nat n"
  by (simp add: unat_eq_nat_uint uint_word_of_int)

lemma quantizeChannel_eq:
  assumes "0 < d"
  shows "int (unat (quantizeChannel d w)) = min 255 (nearestMultiple d (unat w))"
proof -
  define v where "v = unat w"
  have v: "v < 256" using byte_bound[of w] by (simp add: v_def)
  define q where "q = real v / real_of_int d"
  define k where "k = \<lfloor>q + 1 / 2\<rfloor>"
  have q0: "0 \<le> q" using assms by (simp add: q_def)
  have k0: "0 \<le> k" using q0 unfolding k_def by linarith
  have klo: "real_of_int k \<le> q + 1 / 2" unfolding k_def by linarith
  have r: "Math_round (fl q) = k"
    unfolding q_def k_def using v by (intro Math_round_fl_div assms) simp
  have kd: "0 \<le> k * d \<and> k * d \<le> 510"
  proof (cases "k = 0")
    case True
    then show ?thesis by simp
  next
    case False
    with k0 have k1: "1 \<le> k" by simp
    with klo have "1 / 2 \<le> q" by linarith
    then have "1 / 2 * real_of_int d \<le> q * real_of_int d"
      using assms by (intro mult_right_mono) simp_all
    then have "real_of_int d \<le> real_of_int (2 * int v)"
      using assms by (simp add: q_def)
    then have dv: "d \<le> 2 * int v" by (simp only: of_int_le_iff)
    have "real_of_int k * real_of_int d \<le> (q + 1 / 2) * real_of_int d"
      using klo assms by (intro mult_right_mono) simp_all
    also have "\<dots> = real v + real_of_int d / 2"
      using assms by (simp add: q_def algebra_simps)
    finally have "2 * real_of_int (k * d) \<le> real_of_int (2 * int v + d)" by simp
    then have "real_of_int (2 * (k * d)) \<le> real_of_int (2 * int v + d)" by simp
    then have "2 * (k * d) \<le> 2 * int v + d" by (simp only: of_int_le_iff)
    with dv v have "k * d \<le> 510" by simp
    moreover have "0 \<le> k * d" using k0 assms by simp
    ultimately show ?thesis by simp
  qed
  then have "\<bar>k * d\<bar> < 2 ^ 53" by simp
  from fl_of_int[OF this]
  have p: "fl (real_of_int k * real_of_int d) = real_of_int (k * d)" by simp
  have m: "min 255 (real_of_int (k * d)) = real_of_int (min 255 (k * d))"
    by (simp only: of_int_min of_int_numeral)
  have "quantizeChannel d w = word_of_int (min 255 (k * d))"
    using kd unfolding quantizeChannel_def
    by (simp only: r p m toUint8Clamp_of_int v_def[symmetric] q_def[symmetric]) (simp add: toUint8Clamp_of_int)
  with kd show ?thesis
    by (simp add: unat_byte_of_int nearestMultiple_def k_def q_def v_def)
qed

lemma nearestMultiple_near:
  assumes "0 < s"
  shows "2 * \<bar>nearestMultiple s v - int v\<bar> \<le> s"
proof -
  define q where "q = real v / real_of_int s"
  define k where "k = \<lfloor>q + 1 / 2\<rfloor>"
  have "\<bar>real_of_int k - q\<bar> \<le> 1 / 2" unfolding k_def by linarith
  then have "\<bar>real_of_int k - q\<bar> * real_of_int s \<le> 1 / 2 * real_of_int s"
    using assms by (intro mult_right_mono) simp_all
  moreover have "real_of_int k * real_of_int s - real v = (real_of_int k - q) * real_of_int s"
    using assms by (simp add: q_def field_simps)
  then have "\<bar>real_of_int k - q\<bar> * real_of_int s = \<bar>real_of_int k * real_of_int s - real v\<bar>"
    using assms by (simp add: abs_mult)
  ultimately have "2 * \<bar>real_of_int (k * s - int v)\<bar> \<le> real_of_int s" by simp
  then have "real_of_int (2 * \<bar>k * s - int v\<bar>) \<le> real_of_int s" by simp
  then have "2 * \<bar>k * s - int v\<bar> \<le> s" by (simp only: of_int_le_iff)
  then show ?thesis by (simp add: nearestMultiple_def k_def q_def)
qed

lemma quantizeChannel_1: "quantizeChannel 1 w = w"
proof -
  have "int (unat (quantizeChannel 1 w)) = min 255 (nearestMultiple 1 (unat w))"
    by (rule quantizeChannel_eq) simp
  moreover have "\<lfloor>real (unat w) + 1 / 2\<rfloor> = int (unat w)" by linarith
  moreover have "unat w < 256" by (rule byte_bound)
  ultimately have "int (unat (quantizeChannel 1 w)) = int (unat w)"
    by (simp add: nearestMultiple_def del: of_nat_unat)
  then have "unat (quantizeChannel 1 w) = unat w" by (simp only: of_nat_eq_iff)
  then show ?thesis by (rule word_unat_eq_iff[THEN iffD2])
qed

lemma length_quantizeColors_loop [simp]:
  "length (quantizeColors_loop divisor i d) = length d"
proof (induction divisor i d rule: quantizeColors_loop.induct)
  case (1 divisor i d)
  show ?case
    using 1 by (subst quantizeColors_loop.simps) (simp add: Let_def)
qed

lemma quantizeColors_loop_nth:
  "j < length d \<Longrightarrow>
   quantizeColors_loop divisor i d ! j =
     (if i \<le> j \<and> (j - i) mod 4 \<noteq> 3 then quantizeChannel divisor (d ! j) else d ! j)"
proof (induction divisor i d arbitrary: j rule: quantizeColors_loop.induct)
  case (1 divisor i d)
  show ?case
  proof (cases "i < length d")
    case False
    with "1.prems" show ?thesis by (subst quantizeColors_loop.simps) simp
  next
    case True
    define d1 where "d1 = d[i := quantizeChannel divisor (d ! i)]"
    define d2 where "d2 = d1[i + 1 := quantizeChannel divisor (d1 ! (i + 1))]"
    define d3 where "d3 = d2[i + 2 := quantizeChannel divisor (d2 ! (i + 2))]"
    have len: "length d3 = length d" by (simp add: d3_def d2_def d1_def)
    have unfold: "quantizeColors_loop divisor i d = quantizeColors_loop divisor (i + 4) d3"
      using True by (subst quantizeColors_loop.simps) (simp add: d1_def d2_def d3_def Let_def)
    have IH: "quantizeColors_loop divisor (i + 4) d3 ! j =
       (if i + 4 \<le> j \<and> (j - (i + 4)) mod 4 \<noteq> 3
        then quantizeChannel divisor (d3 ! j) else d3 ! j)"
      using "1.IH"[OF True d1_def d2_def d3_def, of j] "1.prems" len by simp
    have d3: "d3 ! j' = (if j' = i \<or> j' = i + 1 \<or> j' = i + 2
                         then quantizeChannel divisor (d ! j') else d ! j')"
      if "j' < length d" for j'
      using that by (auto simp: d3_def d2_def d1_def nth_list_update)
    show ?thesis
    proof (cases "i + 4 \<le> j")
      case True
      then have m: "(j - (i + 4)) mod 4 = (j - i) mod 4"
      proof -
        from True obtain k where k: "j = i + 4 + k" using le_Suc_ex by blast
        show ?thesis unfolding k by simp
      qed
      with True "1.prems" show ?thesis
        unfolding unfold IH by (simp add: d3)
    next
      case False
      show ?thesis
      proof (cases "i \<le> j")
        case True
        with False consider "j = i" | "j = i + 1" | "j = i + 2" | "j = i + 3" by linarith
        then show ?thesis
          using "1.prems" unfolding unfold IH by cases (simp_all add: d3)
      next
        case False
        then show ?thesis
          using "1.prems" unfolding unfold IH by (simp add: d3)
      qed
    qed
  qed
qed

text \<open>
  C7. For every step \<open>s > 0\<close>, \<open>quantizeColors\<close> maps each colour channel value \<open>v\<close> to
  \<open>min(255, round(v / s) * s)\<close>, where \<open>round(v / s) * s\<close> is a multiple of \<open>s\<close> at distance
  at most \<open>s / 2\<close> from \<open>v\<close>; for a step of 0 (or less) the divisor is 1 and the buffer is
  unchanged; the alpha channel is never modified and the length is kept. The double
  rounding of the quotient does not change the result.
\<close>

theorem quantizeColors_pointwise:
  "length (quantizeColors d step) = length d
   \<and> (\<forall>j < length d.
        int (unat (quantizeColors d step ! j)) =
          (if j mod 4 = 3 then int (unat (d ! j))
           else if 0 < step then min 255 (nearestMultiple step (unat (d ! j)))
           else int (unat (d ! j))))
   \<and> (0 < step \<longrightarrow> 2 * \<bar>nearestMultiple step v - int v\<bar> \<le> step)
   \<and> (step \<le> 0 \<longrightarrow> quantizeColors d step = d)"
proof -
  have "quantizeColors d step = d" if "step \<le> 0"
  proof (rule nth_equalityI)
    show "length (quantizeColors d step) = length d" by (simp add: quantizeColors_def Let_def)
  next
    fix j assume "j < length (quantizeColors d step)"
    then show "quantizeColors d step ! j = d ! j"
      using that by (simp add: quantizeColors_def Let_def quantizeColors_loop_nth quantizeChannel_1)
  qed
  then have neg: ?thesis if "step \<le> 0"
    using that by simp
  have pos: ?thesis if "0 < step"
    using that nearestMultiple_near[of step v]
    by (auto simp: quantizeColors_def Let_def quantizeColors_loop_nth quantizeChannel_eq
        simp del: of_nat_unat)
  show ?thesis
  proof (cases "0 < step")
    case True
    then show ?thesis by (rule pos)
  next
    case False
    then have "step \<le> 0" by simp
    then show ?thesis by (rule neg)
  qed
qed

theorem quantizeColors_pointwise_witness:
  "quantizeColors [20, 130, 255, 99] 16 = [16, 128, 255, 99]
   \<and> 2 * \<bar>nearestMultiple 16 20 - 20\<bar> \<le> (16::int)
   \<and> quantizeColors [20, 130, 255, 99] 0 = [20, 130, 255, 99]"
proof -
  let ?d = "[20, 130, 255, 99] :: 8 word list"
  have h: "\<forall>j < length ?d. int (unat (quantizeColors ?d 16 ! j)) =
         (if j mod 4 = 3 then int (unat (?d ! j))
          else min 255 (nearestMultiple 16 (unat (?d ! j))))"
    and len: "length (quantizeColors ?d 16) = length ?d"
    and n: "2 * \<bar>nearestMultiple 16 20 - int 20\<bar> \<le> 16"
    using quantizeColors_pointwise[of ?d 16 20] by (simp_all del: of_nat_unat)
  from h[rule_format, of 0] h[rule_format, of 1] h[rule_format, of 2] h[rule_format, of 3]
  have "unat (quantizeColors ?d 16 ! 0) = 16" "unat (quantizeColors ?d 16 ! 1) = 128"
    "unat (quantizeColors ?d 16 ! 2) = 255" "unat (quantizeColors ?d 16 ! 3) = 99"
    by (simp_all add: nearestMultiple_def del: of_nat_unat)
  then have "quantizeColors ?d 16 ! 0 = 16" "quantizeColors ?d 16 ! 1 = 128"
    "quantizeColors ?d 16 ! 2 = 255" "quantizeColors ?d 16 ! 3 = 99"
    by (simp_all add: word_unat_eq_iff)
  with len have "quantizeColors ?d 16 = [16, 128, 255, 99]"
    by (intro nth_equalityI) (auto simp: less_Suc_eq_0_disj numeral_eq_Suc)
  moreover have "quantizeColors ?d 0 = ?d"
    using quantizeColors_pointwise[of ?d 0 20] by simp
  ultimately show ?thesis using n by simp
qed

subsection \<open>The halftone pattern\<close>

lemma compareEntries_neg: "compareEntries a b < 0 \<longleftrightarrow> \<not> entry_le b a"
  by (auto simp: compareEntries_def entry_le_def fl_neg_iff)

lemma entry_le_trans: "entry_le a b \<Longrightarrow> entry_le b c \<Longrightarrow> entry_le a c"
  by (auto simp: entry_le_def)

lemma entry_le_total: "entry_le a b \<or> entry_le b a"
  by (auto simp: entry_le_def)

lemma mset_insert_sorted: "mset (insert_sorted cmp x ys) = add_mset x (mset ys)"
  by (induction ys) auto

lemma mset_foldl_insert_sorted:
  "mset (foldl (\<lambda>acc x. insert_sorted cmp x acc) acc xs) = mset acc + mset xs"
  by (induction xs arbitrary: acc) (auto simp: mset_insert_sorted)

lemma mset_Array_sort: "mset (Array_sort cmp xs) = mset xs"
  by (simp add: Array_sort_def mset_foldl_insert_sorted)

lemma set_insert_sorted: "set (insert_sorted cmp x ys) = insert x (set ys)"
  by (metis mset_insert_sorted set_mset_add_mset_insert set_mset_mset)

lemma set_Array_sort: "set (Array_sort cmp xs) = set xs"
  by (metis mset_Array_sort set_mset_mset)

lemma sorted_insert_sorted:
  "sorted_wrt entry_le ys \<Longrightarrow> sorted_wrt entry_le (insert_sorted compareEntries x ys)"
proof (induction ys)
  case Nil
  then show ?case by simp
next
  case (Cons y ys)
  show ?case
  proof (cases "compareEntries x y < 0")
    case True
    then have xy: "entry_le x y" using entry_le_total compareEntries_neg by blast
    with Cons.prems have "\<forall>z \<in> set (y # ys). entry_le x z"
      using entry_le_trans by auto
    with True Cons.prems show ?thesis by simp
  next
    case False
    then have "entry_le y x" by (simp add: compareEntries_neg)
    with False Cons show ?thesis by (auto simp: set_insert_sorted)
  qed
qed

lemma sorted_foldl_insert_sorted:
  "sorted_wrt entry_le acc \<Longrightarrow>
   sorted_wrt entry_le (foldl (\<lambda>acc x. insert_sorted compareEntries x acc) acc xs)"
  by (induction xs arbitrary: acc) (auto simp: sorted_insert_sorted)

lemma sorted_Array_sort: "sorted_wrt entry_le (Array_sort compareEntries xs)"
  by (simp add: Array_sort_def sorted_foldl_insert_sorted)

lemma product_index:
  "map (\<lambda>(y, x). y * w + x) (List.product [0..<h] [0..<w]) = [0..<h * w]"
proof (rule nth_equalityI)
  show "length (map (\<lambda>(y, x). y * w + x) (List.product [0..<h] [0..<w])) = length [0..<h * w]"
    by simp
next
  fix n
  assume "n < length (map (\<lambda>(y, x). y * w + x) (List.product [0..<h] [0..<w]))"
  then have n: "n < h * w" by simp
  then have w: "0 < w" by (cases w) simp_all
  have "n div w < h" using n w by (simp add: less_mult_imp_div_less)
  moreover have "n mod w < w" using w by simp
  ultimately show "map (\<lambda>(y, x). y * w + x) (List.product [0..<h] [0..<w]) ! n = [0..<h * w] ! n"
    using n by (simp add: List.product_nth)
qed

lemma center_exact:
  assumes "w \<le> 65536"
  shows "fl (fl (real w - 1) / 2) = (real w - 1) / 2"
proof -
  have a: "\<bar>int w - 1\<bar> < 2 ^ 53" using assms by simp
  have "fl (real w - 1) = real_of_int (int w - 1)"
    using fl_of_int[OF a] by simp
  then show ?thesis using fl_half_int[OF a] by simp
qed

lemma offset_exact:
  assumes "w \<le> 65536" and "x < w"
  shows "fl (real x - (real w - 1) / 2) = real x - (real w - 1) / 2"
proof -
  have a: "\<bar>2 * int x - int w + 1\<bar> < 2 ^ 53" using assms by simp
  have eq: "real x - (real w - 1) / 2 = real_of_int (2 * int x - int w + 1) / 2"
    by (simp add: field_simps)
  show ?thesis unfolding eq by (rule fl_half_int[OF a])
qed

lemma offset_int:
  assumes "x < w"
  shows "\<exists>m. \<bar>m\<bar> < int w \<and> real x - (real w - 1) / 2 = real_of_int m / 2"
proof (intro exI conjI)
  show "\<bar>2 * int x - int w + 1\<bar> < int w" using assms by simp
  show "real x - (real w - 1) / 2 = real_of_int (2 * int x - int w + 1) / 2"
    by (simp add: field_simps)
qed

lemma square_bound:
  fixes m :: int
  assumes "\<bar>m\<bar> < int w" and "w \<le> 65536"
  shows "m * m < 2 ^ 32" and "0 \<le> m * m"
proof -
  have "m * m = \<bar>m\<bar> * \<bar>m\<bar>" by simp
  also have "\<dots> \<le> 65535 * 65535"
    using assms by (intro mult_mono) simp_all
  finally show "m * m < 2 ^ 32" by simp
  show "0 \<le> m * m" by simp
qed

lemma distance_exact:
  assumes w: "w \<le> 65536" and h: "h \<le> 65536" and x: "x < w" and y: "y < h"
  defines "dx \<equiv> real x - (real w - 1) / 2" and "dy \<equiv> real y - (real h - 1) / 2"
  shows "fl (fl (dx * dx) + fl (dy * dy)) = dx\<^sup>2 + dy\<^sup>2"
proof -
  from offset_int[OF x] obtain m where m: "\<bar>m\<bar> < int w" "dx = real_of_int m / 2"
    unfolding dx_def by blast
  from offset_int[OF y] obtain n where n: "\<bar>n\<bar> < int h" "dy = real_of_int n / 2"
    unfolding dy_def by blast
  note bm = square_bound[OF m(1) w] and bn = square_bound[OF n(1) h]
  have dxx: "dx * dx = real_of_int (m * m) / 4" by (simp add: m(2))
  have am: "\<bar>m * m\<bar> < 2 ^ 53" using bm by simp
  have fx: "fl (dx * dx) = real_of_int (m * m) / 4"
    unfolding dxx by (rule fl_quarter_int[OF am])
  have dyy: "dy * dy = real_of_int (n * n) / 4" by (simp add: n(2))
  have an: "\<bar>n * n\<bar> < 2 ^ 53" using bn by simp
  have fy: "fl (dy * dy) = real_of_int (n * n) / 4"
    unfolding dyy by (rule fl_quarter_int[OF an])
  have amn: "\<bar>m * m + n * n\<bar> < 2 ^ 53" using bm bn by simp
  have s: "real_of_int (m * m) / 4 + real_of_int (n * n) / 4 = real_of_int (m * m + n * n) / 4"
    by simp
  have "fl (fl (dx * dx) + fl (dy * dy)) = real_of_int (m * m + n * n) / 4"
    unfolding fx fy s by (rule fl_quarter_int[OF amn])
  also have "\<dots> = dx\<^sup>2 + dy\<^sup>2"
    by (simp add: m(2) n(2) power2_eq_square add_divide_distrib)
  finally show ?thesis .
qed

lemma index_halftoneEntries: "map index (halftoneEntries w h) = [0..<h * w]"
proof -
  have "map index (halftoneEntries w h) =
        map (\<lambda>(y, x). y * w + x) (List.product [0..<h] [0..<w])"
    by (simp add: halftoneEntries_def Let_def case_prod_beta comp_def)
  then show ?thesis by (simp add: product_index)
qed

lemma halftoneEntries_keys:
  assumes w: "w \<le> 65536" and h: "h \<le> 65536" and e: "e \<in> set (halftoneEntries w h)"
  shows "distance e = sqDist w h (index e) \<and> angle e = pixelAngle w h (index e)"
proof -
  from e obtain y x where y: "y < h" and x: "x < w"
    and e: "e = \<lparr>index = y * w + x,
       distance = fl (fl (fl (real x - fl (fl (real w - 1) / 2)) * fl (real x - fl (fl (real w - 1) / 2)))
                    + fl (fl (real y - fl (fl (real h - 1) / 2)) * fl (real y - fl (fl (real h - 1) / 2)))),
       angle = Math_atan2 (fl (real y - fl (fl (real h - 1) / 2))) (fl (real x - fl (fl (real w - 1) / 2)))\<rparr>"
    by (auto simp: halftoneEntries_def Let_def)
  have mx: "(y * w + x) mod w = x" and dy: "(y * w + x) div w = y"
    using x by simp_all
  show ?thesis
    unfolding e
    using distance_exact[OF w h x y]
    by (simp add: center_exact w h offset_exact x y sqDist_def pixelAngle_def mx dy)
qed

lemma index_sorted_entries:
  "mset (map index (Array_sort compareEntries (halftoneEntries w h))) = mset [0..<w * h]"
proof -
  have "mset (map index (Array_sort compareEntries (halftoneEntries w h))) =
        image_mset index (mset (Array_sort compareEntries (halftoneEntries w h)))"
    by simp
  also have "\<dots> = image_mset index (mset (halftoneEntries w h))"
    by (simp only: mset_Array_sort)
  also have "\<dots> = mset (map index (halftoneEntries w h))" by simp
  finally show ?thesis by (simp add: index_halftoneEntries mult.commute)
qed

lemma halftoneEntries_bounds:
  assumes "e \<in> set (halftoneEntries w h)"
  shows "index e < w * h" and "0 < w" and "0 < h"
proof -
  have "index e \<in> set (map index (halftoneEntries w h))" using assms by simp
  then show "index e < w * h" by (simp add: index_halftoneEntries mult.commute)
  then show "0 < w" and "0 < h" by (cases w; cases h; simp)+
qed

lemma computePattern_unat:
  assumes "w * h \<le> 65536"
  shows "map unat (computePattern w h) =
         map index (Array_sort compareEntries (halftoneEntries w h))"
proof -
  have "unat (word_of_nat (index e) :: 16 word) = index e"
    if "e \<in> set (Array_sort compareEntries (halftoneEntries w h))" for e
  proof -
    from that have "e \<in> set (halftoneEntries w h)" by (simp add: set_Array_sort)
    from halftoneEntries_bounds(1)[OF this] assms have "index e < 2 ^ 16" by simp
    then show ?thesis by (simp add: unat_of_nat)
  qed
  then show ?thesis by (simp add: computePattern_def)
qed

lemma computePattern_perm:
  assumes "bw * bh \<le> 65536"
  shows "length (computePattern bw bh) = bw * bh"
    and "set (map unat (computePattern bw bh)) = {0..<bw * bh}"
proof -
  have m: "mset (map unat (computePattern bw bh)) = mset [0..<bw * bh]"
    unfolding computePattern_unat[OF assms] by (rule index_sorted_entries)
  from mset_eq_length[OF m] show "length (computePattern bw bh) = bw * bh" by simp
  from mset_eq_setD[OF m] show "set (map unat (computePattern bw bh)) = {0..<bw * bh}" by simp
qed

lemma sorted_computePattern:
  assumes "w * h \<le> 65536"
  shows "sorted_wrt (before w h) (map unat (computePattern w h))"
proof -
  let ?es = "Array_sort compareEntries (halftoneEntries w h)"
  have "before w h (index a) (index b)"
    if a: "a \<in> set ?es" and b: "b \<in> set ?es" and le: "entry_le a b" for a b
  proof -
    from a b have a': "a \<in> set (halftoneEntries w h)" and b': "b \<in> set (halftoneEntries w h)"
      by (simp_all add: set_Array_sort)
    from halftoneEntries_bounds(2,3)[OF a'] have "w \<le> w * h" and "h \<le> w * h"
      by simp_all
    with assms have w: "w \<le> 65536" and h: "h \<le> 65536" by linarith+
    from halftoneEntries_keys[OF w h a'] halftoneEntries_keys[OF w h b'] le
    show ?thesis by (simp add: before_def entry_le_def)
  qed
  then have "sorted_wrt (\<lambda>a b. before w h (index a) (index b)) ?es"
    using sorted_Array_sort[of "halftoneEntries w h"]
    by (rule_tac sorted_wrt_mono_rel[where P = entry_le]) auto
  then show ?thesis
    by (simp add: computePattern_unat[OF assms] sorted_wrt_map)
qed

lemma digit_value: "d < 10 \<Longrightarrow> of_char (char_of (48 + d) :: char) - 48 = (d::nat)"
  by (simp add: of_char_of)

lemma digit_not_x: "d < 10 \<Longrightarrow> (char_of (48 + d :: nat) :: char) \<noteq> CHR ''x''"
proof
  assume d: "d < 10" and "(char_of (48 + d) :: char) = CHR ''x''"
  then have "(of_char (char_of (48 + d) :: char) :: nat) = of_char CHR ''x''" by simp
  with d show False by (simp add: of_char_of)
qed

lemma undecimal_decimal: "undecimal (decimal n) = n"
proof (induction n rule: decimal.induct)
  case (1 n)
  show ?case
  proof (cases "n < 10")
    case True
    then show ?thesis
      by (subst decimal.simps) (simp add: undecimal_def digit_value)
  next
    case False
    have "undecimal (decimal n) = 10 * undecimal (decimal (n div 10)) + n mod 10"
      using False by (subst decimal.simps) (simp add: undecimal_def digit_value)
    with "1.IH"[OF False] show ?thesis by simp
  qed
qed

lemma decimal_inj: "decimal m = decimal n \<Longrightarrow> m = n"
  by (metis undecimal_decimal)

lemma decimal_no_x: "CHR ''x'' \<notin> set (decimal n)"
proof (induction n rule: decimal.induct)
  case (1 n)
  show ?case
  proof (cases "n < 10")
    case True
    then show ?thesis
      using digit_not_x[of n] by (subst decimal.simps) auto
  next
    case False
    then show ?thesis
      using "1.IH"[OF False] digit_not_x[of "n mod 10"]
      by (subst decimal.simps) auto
  qed
qed

lemma cacheKey_inj: "cacheKey w h = cacheKey w' h' \<Longrightarrow> w = w' \<and> h = h'"
proof -
  assume e: "cacheKey w h = cacheKey w' h'"
  have nx: "c \<noteq> CHR ''x''" if "c \<in> set (decimal a)" for c a
    using that decimal_no_x[of a] by metis
  have t: "takeWhile (\<lambda>c. c \<noteq> CHR ''x'') (cacheKey a b) = decimal a" for a b
    unfolding cacheKey_def by (subst takeWhile_append2) (simp_all add: nx)
  have d: "dropWhile (\<lambda>c. c \<noteq> CHR ''x'') (cacheKey a b) = CHR ''x'' # decimal b" for a b
    unfolding cacheKey_def by (subst dropWhile_append2) (simp_all add: nx)
  from e t have "decimal w = decimal w'" by metis
  moreover from e d have "decimal h = decimal h'" by (metis list.inject)
  ultimately show ?thesis by (simp add: decimal_inj)
qed

lemma getHalftonePattern_ok:
  assumes "cache_ok cache"
  shows "fst (getHalftonePattern cache w h) = computePattern w h"
    and "cache_ok (snd (getHalftonePattern cache w h))"
    and "snd (getHalftonePattern cache w h) (cacheKey w h) = Some (computePattern w h)"
proof -
  from assms have hit: "p = computePattern w h" if "cache (cacheKey w h) = Some p" for p
    using that unfolding cache_ok_def by blast
  show "fst (getHalftonePattern cache w h) = computePattern w h"
  proof (cases "cache (cacheKey w h)")
    case None
    then show ?thesis by (simp add: getHalftonePattern_def Let_def)
  next
    case (Some p)
    with hit[OF Some] show ?thesis by (simp add: getHalftonePattern_def Let_def)
  qed
  show "snd (getHalftonePattern cache w h) (cacheKey w h) = Some (computePattern w h)"
  proof (cases "cache (cacheKey w h)")
    case None
    then show ?thesis by (simp add: getHalftonePattern_def Let_def)
  next
    case (Some p)
    with hit[OF Some] show ?thesis by (simp add: getHalftonePattern_def Let_def)
  qed
  show "cache_ok (snd (getHalftonePattern cache w h))"
  proof (cases "cache (cacheKey w h)")
    case (Some p)
    then have "snd (getHalftonePattern cache w h) = cache"
      by (simp add: getHalftonePattern_def Let_def)
    with assms show ?thesis by (simp only:)
  next
    case None
    then have s: "snd (getHalftonePattern cache w h) = cache(cacheKey w h \<mapsto> computePattern w h)"
      by (simp add: getHalftonePattern_def Let_def)
    have "p = computePattern w' h'"
      if "(cache(cacheKey w h \<mapsto> computePattern w h)) (cacheKey w' h') = Some p" for w' h' p
    proof (cases "cacheKey w' h' = cacheKey w h")
      case True
      from cacheKey_inj[OF True] have "w' = w" "h' = h" by simp_all
      moreover from that True have "p = computePattern w h" by simp
      ultimately show ?thesis by (simp only:)
    next
      case False
      with that have "cache (cacheKey w' h') = Some p" by simp
      with assms show ?thesis unfolding cache_ok_def by blast
    qed
    then show ?thesis unfolding s cache_ok_def by blast
  qed
qed

lemma halftoneEntries_2_1:
  "halftoneEntries 2 1 =
     [\<lparr>index = 0, distance = 1 / 4, angle = pi\<rparr>, \<lparr>index = 1, distance = 1 / 4, angle = 0\<rparr>]"
proof -
  have p: "List.product [0..<1] [0..<2] = [(0, 0), (0, 1)]"
    by (simp add: upt_rec)
  show ?thesis
    unfolding halftoneEntries_def p Let_def
    by (simp add: fl_small Math_atan2_def)
qed

lemma computePattern_2_1: "computePattern 2 1 = [1, 0]"
  unfolding computePattern_def halftoneEntries_2_1 Array_sort_def
  by (simp add: compareEntries_def fl_neg_iff)

text \<open>
  C4, amended. For every block shape \<open>(w, h)\<close> with \<open>w * h \<le> 65536\<close> (and so for every
  block \<open>applySampledMonochrome\<close> asks for, at most \<open>32 \<times> 32\<close>), and every cache filled by
  earlier calls, the pattern returned is a permutation of \<open>0..w*h-1\<close>, sorted ascending by
  squared distance from the block centre with ties broken by ascending \<open>atan2\<close> angle; it
  is the computed pattern whatever the cache held, and a second call with the same shape
  returns the same sequence and leaves the cache as it is.
\<close>

theorem getHalftonePattern_sorted_permutation:
  assumes "w * h \<le> 65536" and "cache_ok cache"
  shows "(let got = getHalftonePattern cache w h; ks = map unat (fst got)
          in mset ks = mset [0..<w * h]
             \<and> sorted_wrt (before w h) ks
             \<and> fst got = computePattern w h
             \<and> getHalftonePattern (snd got) w h = (fst got, snd got)
             \<and> cache_ok (snd got))"
proof -
  note ok = getHalftonePattern_ok[OF assms(2), of w h]
  have "getHalftonePattern (snd (getHalftonePattern cache w h)) w h =
        (computePattern w h, snd (getHalftonePattern cache w h))"
    using ok(3) by (simp add: getHalftonePattern_def[of "snd (getHalftonePattern cache w h)"] Let_def)
  moreover have "mset (map unat (computePattern w h)) = mset [0..<w * h]"
    unfolding computePattern_unat[OF assms(1)] by (rule index_sorted_entries)
  moreover have "(computePattern w h, snd (getHalftonePattern cache w h)) =
        (fst (getHalftonePattern cache w h), snd (getHalftonePattern cache w h))"
    using ok(1) by simp
  ultimately show ?thesis
    unfolding Let_def ok(1)
    using ok(2) sorted_computePattern[OF assms(1)] by (intro conjI) simp_all
qed

theorem getHalftonePattern_sorted_permutation_witness:
  "fst (getHalftonePattern Map.empty 2 1) = [1, 0]
   \<and> mset (map unat (fst (getHalftonePattern Map.empty 2 1))) = mset [0..<2 * 1]
   \<and> sorted_wrt (before 2 1) (map unat (fst (getHalftonePattern Map.empty 2 1)))
   \<and> getHalftonePattern (snd (getHalftonePattern Map.empty 2 1)) 2 1 =
       (fst (getHalftonePattern Map.empty 2 1), snd (getHalftonePattern Map.empty 2 1))"
proof -
  have "cache_ok Map.empty" by (simp add: cache_ok_def)
  moreover have "(2::nat) * 1 \<le> 65536" by simp
  ultimately have a: "mset (map unat (fst (getHalftonePattern Map.empty 2 1))) = mset [0..<2 * 1]"
    and b: "sorted_wrt (before 2 1) (map unat (fst (getHalftonePattern Map.empty 2 1)))"
    and c: "fst (getHalftonePattern Map.empty 2 1) = computePattern 2 1"
    and d: "getHalftonePattern (snd (getHalftonePattern Map.empty 2 1)) 2 1 =
         (fst (getHalftonePattern Map.empty 2 1), snd (getHalftonePattern Map.empty 2 1))"
    using getHalftonePattern_sorted_permutation[of 2 1 Map.empty]
    unfolding Let_def by blast+
  from c have "fst (getHalftonePattern Map.empty 2 1) = [1, 0]"
    by (simp only: computePattern_2_1)
  with a b d show ?thesis by blast
qed

text \<open>
  C4, as stated for every \<open>w, h \<ge> 1\<close>, fails: the pattern is a \<open>Uint16Array\<close>, so for the
  block shape \<open>(65537, 1)\<close> the index 65536 cannot occur in it.
\<close>

theorem getHalftonePattern_uint16_counterexample:
  "mset (map unat (fst (getHalftonePattern Map.empty 65537 1))) \<noteq> mset [0..<65537 * 1]"
proof
  assume "mset (map unat (fst (getHalftonePattern Map.empty 65537 1))) = mset [0..<65537 * 1]"
  then have "set (map unat (fst (getHalftonePattern Map.empty 65537 1))) = set [0..<65537 * 1]"
    by (rule mset_eq_setD)
  moreover have "(65536::nat) \<in> set [0..<65537 * 1]" by simp
  ultimately have "(65536::nat) \<in> set (map unat (fst (getHalftonePattern Map.empty 65537 1)))"
    by (simp only:)
  then obtain x :: "16 word" where "unat x = 65536" by auto
  with unsigned_less[of x, where 'a = nat] show False by simp
qed

subsection \<open>Sampled halftone\<close>

lemma painted_refl: "painted {} d d"
  by (simp add: painted_def)

lemma painted_trans:
  assumes "painted S d d'" and "painted T d' d''"
  shows "painted (S \<union> T) d d''"
  unfolding painted_def
proof (intro conjI allI impI)
  show "length d'' = length d" using assms by (simp add: painted_def)
next
  fix j assume j: "j < length d"
  then have j': "j < length d'" using assms(1) by (simp add: painted_def)
  from assms(1) j have 1: "d' ! j = d ! j \<or> (j mod 4 \<noteq> 3 \<and> d' ! j \<in> {0, 255})"
    by (simp add: painted_def)
  from assms(2) j' have 2: "d'' ! j = d' ! j \<or> (j mod 4 \<noteq> 3 \<and> d'' ! j \<in> {0, 255})"
    by (simp add: painted_def)
  from 1 2 show "d'' ! j = d ! j \<or> (j mod 4 \<noteq> 3 \<and> d'' ! j \<in> {0, 255})"
    by auto
next
  fix j assume j: "j < length d" and m: "j \<in> S \<union> T"
  then have j': "j < length d'" using assms(1) by (simp add: painted_def)
  from assms(2) j' have 2: "d'' ! j = d' ! j \<or> (j mod 4 \<noteq> 3 \<and> d'' ! j \<in> {0, 255})"
    and T: "j \<in> T \<longrightarrow> d'' ! j \<in> {0, 255}"
    by (simp_all add: painted_def)
  from assms(1) j have S: "j \<in> S \<longrightarrow> d' ! j \<in> {0, 255}"
    by (simp add: painted_def)
  from m 2 T S show "d'' ! j \<in> {0, 255}" by auto
qed

lemma painted_mono: "painted S d d' \<Longrightarrow> T \<subseteq> S \<Longrightarrow> painted T d d'"
  by (auto simp: painted_def)

lemma painted_write:
  assumes "idx mod 4 = 0" and "v = 0 \<or> v = 255"
  shows "painted {idx, idx + 1, idx + 2} d (d[idx := v, idx + 1 := v, idx + 2 := v])"
proof -
  have m: "(idx + 1) mod 4 = 1" "(idx + 2) mod 4 = 2"
    using assms(1) by presburger+
  let ?d' = "d[idx := v, idx + 1 := v, idx + 2 := v]"
  have w: "?d' ! j = v" if "j < length d" "j = idx \<or> j = idx + 1 \<or> j = idx + 2" for j
    using that by (auto simp: nth_list_update)
  have o: "?d' ! j = d ! j" if "j \<noteq> idx" "j \<noteq> idx + 1" "j \<noteq> idx + 2" for j
    using that by simp
  have c: "j mod 4 \<noteq> 3" if "j = idx \<or> j = idx + 1 \<or> j = idx + 2" for j
    using that assms(1) m by auto
  show ?thesis
    unfolding painted_def
  proof (intro conjI allI impI)
    show "length ?d' = length d" by simp
  next
    fix j assume j: "j < length d"
    show "?d' ! j = d ! j \<or> (j mod 4 \<noteq> 3 \<and> ?d' ! j \<in> {0, 255})"
    proof (cases "j = idx \<or> j = idx + 1 \<or> j = idx + 2")
      case True
      from w[OF j True] c[OF True] assms(2) show ?thesis by auto
    next
      case False
      then show ?thesis using o[of j] by simp
    qed
  next
    fix j assume j: "j < length d" and "j \<in> {idx, idx + 1, idx + 2}"
    then have "j = idx \<or> j = idx + 1 \<or> j = idx + 2" by simp
    from w[OF j this] assms(2) show "?d' ! j \<in> {0, 255}" by auto
  qed
qed

lemma painted_foldl:
  assumes "\<And>k. k \<in> set ks \<Longrightarrow> idx k mod 4 = 0 \<and> (v k = 0 \<or> v k = 255)"
  shows "painted (\<Union>k \<in> set ks. {idx k, idx k + 1, idx k + 2}) d
           (foldl (\<lambda>d' k. d'[idx k := v k, idx k + 1 := v k, idx k + 2 := v k]) d ks)"
  using assms
proof (induction ks arbitrary: d)
  case Nil
  then show ?case by (simp add: painted_refl)
next
  case (Cons k ks)
  have 1: "painted {idx k, idx k + 1, idx k + 2} d (d[idx k := v k, idx k + 1 := v k, idx k + 2 := v k])"
    using Cons.prems[of k] by (intro painted_write) simp_all
  have 2: "painted (\<Union>k \<in> set ks. {idx k, idx k + 1, idx k + 2})
             (d[idx k := v k, idx k + 1 := v k, idx k + 2 := v k])
             (foldl (\<lambda>d' k. d'[idx k := v k, idx k + 1 := v k, idx k + 2 := v k])
                (d[idx k := v k, idx k + 1 := v k, idx k + 2 := v k]) ks)"
    using Cons.prems by (intro Cons.IH) simp
  from painted_trans[OF 1 2] show ?case by simp
qed

lemma rectSet_empty: "x1 \<le> x0 \<or> y1 \<le> y0 \<Longrightarrow> rectSet w x0 x1 y0 y1 = {}"
  by (auto simp: rectSet_def)

lemma painted_paintBlock:
  assumes bw: "0 < bw" and n: "bw * bh \<le> 65536"
    and len: "length pattern = bw * bh"
    and perm: "set (map unat pattern) = {0..<bw * bh}"
  shows "painted (rectSet w x (x + bw) y (y + bh)) d
           (paintBlock d w x y bw (bw * bh) whitePixels pattern)"
proof -
  define idx where "idx k =
    ((y + nat (Math_floor (fl (real (unat (pattern ! k)) / real bw)))) * w
      + (x + unat (pattern ! k) mod bw)) * 4" for k
  define v :: "nat \<Rightarrow> 8 word" where
    "v k = (case whitePixels of None \<Rightarrow> 0 | Some n \<Rightarrow> if int k < n then 255 else 0)" for k
  have pb: "paintBlock d w x y bw (bw * bh) whitePixels pattern =
        foldl (\<lambda>d' k. d'[idx k := v k, idx k + 1 := v k, idx k + 2 := v k]) d [0..<bw * bh]"
    by (simp add: paintBlock_def Let_def idx_def v_def)
  have side: "idx k mod 4 = 0 \<and> (v k = 0 \<or> v k = 255)" for k
    by (simp add: idx_def v_def split: option.splits)
  have p: "painted (\<Union>k \<in> set [0..<bw * bh]. {idx k, idx k + 1, idx k + 2}) d
             (paintBlock d w x y bw (bw * bh) whitePixels pattern)"
    unfolding pb by (rule painted_foldl) (rule side)
  have floor: "nat (Math_floor (fl (real (unat (pattern ! k)) / real bw))) = unat (pattern ! k) div bw"
    for k
  proof -
    have "unat (pattern ! k) < 2 ^ 16" using unsigned_less[of "pattern ! k", where 'a = nat] by simp
    then have "unat (pattern ! k) < 2 ^ 52" by simp
    from Math_floor_fl_div[OF bw this] show ?thesis by simp
  qed
  have sub: "rectSet w x (x + bw) y (y + bh)
             \<subseteq> (\<Union>k \<in> set [0..<bw * bh]. {idx k, idx k + 1, idx k + 2})"
  proof
    fix j assume "j \<in> rectSet w x (x + bw) y (y + bh)"
    then obtain X Y c where j: "j = (Y * w + X) * 4 + c"
      and X: "x \<le> X" "X < x + bw" and Y: "y \<le> Y" "Y < y + bh" and c: "c < 3"
      by (auto simp: rectSet_def)
    define lx where "lx = X - x"
    define ly where "ly = Y - y"
    have lx: "lx < bw" and ly: "ly < bh" using X Y by (simp_all add: lx_def ly_def)
    have XY: "X = x + lx" "Y = y + ly" using X Y by (simp_all add: lx_def ly_def)
    have "ly * bw + lx < bh * bw"
    proof -
      have "ly * bw + lx < ly * bw + bw" using lx by simp
      also have "\<dots> = (ly + 1) * bw" by simp
      also have "\<dots> \<le> bh * bw" using ly by (intro mult_le_mono1) simp
      finally show ?thesis .
    qed
    then have "ly * bw + lx \<in> {0..<bw * bh}" by (simp add: mult.commute)
    with perm have "ly * bw + lx \<in> set (map unat pattern)" by simp
    then obtain k where k: "k < length pattern" and pk: "unat (pattern ! k) = ly * bw + lx"
      by (auto simp: in_set_conv_nth)
    have "(ly * bw + lx) div bw = ly" and "(ly * bw + lx) mod bw = lx"
      using lx by simp_all
    moreover have "idx k = ((y + unat (pattern ! k) div bw) * w + (x + unat (pattern ! k) mod bw)) * 4"
      by (simp only: idx_def floor)
    ultimately have "idx k = (Y * w + X) * 4"
      by (simp only: pk XY)
    moreover from c have "c = 0 \<or> c = 1 \<or> c = 2" by linarith
    ultimately have "j \<in> {idx k, idx k + 1, idx k + 2}" using j by auto
    with k len show "j \<in> (\<Union>k \<in> set [0..<bw * bh]. {idx k, idx k + 1, idx k + 2})"
      by auto
  qed
  from painted_mono[OF p sub] show ?thesis .
qed

lemma painted_sampledBlock:
  assumes ok: "cache_ok (snd st)" and n: "bw * bh \<le> 65536"
  shows "painted (rectSet w x (x + bw) y (y + bh)) (fst st)
           (fst (sampledBlock bias w x y bw bh st))
         \<and> cache_ok (snd (sampledBlock bias w x y bw bh st))"
proof (cases "bw * bh = 0")
  case True
  then have "rectSet w x (x + bw) y (y + bh) = {}"
    by (intro rectSet_empty) auto
  with True ok show ?thesis by (simp add: sampledBlock_def painted_refl)
next
  case False
  then have bw: "0 < bw" by simp
  note g = getHalftonePattern_ok[OF ok, of bw bh]
  from False show ?thesis
    using painted_paintBlock[OF bw n computePattern_perm[OF n], of w x y "fst st"] g
    by (simp add: sampledBlock_def Let_def)
qed

lemma painted_sampledRow:
  assumes "cache_ok (snd st)" and "0 < blockSize" and "blockSize \<le> 32" and "blockHeight \<le> 32"
  shows "painted (rectSet w x w y (y + blockHeight)) (fst st)
           (fst (sampledRow blockSize bias w y blockHeight x st))
         \<and> cache_ok (snd (sampledRow blockSize bias w y blockHeight x st))"
  using assms
proof (induction blockSize bias w y blockHeight x st rule: sampledRow.induct)
  case (1 blockSize bias w y blockHeight x st)
  show ?case
  proof (cases "x < w")
    case False
    then have "rectSet w x w y (y + blockHeight) = {}" by (intro rectSet_empty) simp
    with False "1.prems" show ?thesis
      by (subst (1 2) sampledRow.simps) (simp add: painted_refl)
  next
    case True
    define bw where "bw = min blockSize (w - x)"
    define st' where "st' = sampledBlock bias w x y bw blockHeight st"
    have c: "x < w \<and> 0 < blockSize" using True "1.prems" by simp
    have "bw * blockHeight \<le> 32 * 32"
      using "1.prems" by (intro mult_mono) (simp_all add: bw_def)
    then have n: "bw * blockHeight \<le> 65536" by simp
    from painted_sampledBlock[OF "1.prems"(1) n, of w x y bias]
    have b: "painted (rectSet w x (x + bw) y (y + blockHeight)) (fst st) (fst st')"
      and ok': "cache_ok (snd st')" by (simp_all add: st'_def)
    have unfold: "sampledRow blockSize bias w y blockHeight x st =
                  sampledRow blockSize bias w y blockHeight (x + blockSize) st'"
      using c by (subst sampledRow.simps) (simp add: st'_def bw_def)
    from "1.IH"[OF c] ok' "1.prems"
    have r: "painted (rectSet w (x + blockSize) w y (y + blockHeight)) (fst st')
               (fst (sampledRow blockSize bias w y blockHeight (x + blockSize) st'))"
      and ok'': "cache_ok (snd (sampledRow blockSize bias w y blockHeight (x + blockSize) st'))"
      by (simp_all add: st'_def bw_def)
    have sub: "rectSet w x w y (y + blockHeight)
               \<subseteq> rectSet w x (x + bw) y (y + blockHeight)
                 \<union> rectSet w (x + blockSize) w y (y + blockHeight)"
    proof
      fix j assume "j \<in> rectSet w x w y (y + blockHeight)"
      then obtain X Y k where j: "j = (Y * w + X) * 4 + k"
        and X: "x \<le> X" "X < w" and Y: "y \<le> Y" "Y < y + blockHeight" and k: "k < 3"
        by (auto simp: rectSet_def)
      show "j \<in> rectSet w x (x + bw) y (y + blockHeight)
                 \<union> rectSet w (x + blockSize) w y (y + blockHeight)"
      proof (cases "X < x + blockSize")
        case True
        with X have "X < x + bw" by (simp add: bw_def)
        with j X Y k have "j \<in> rectSet w x (x + bw) y (y + blockHeight)"
          unfolding rectSet_def by blast
        then show ?thesis by simp
      next
        case False
        with j X Y k have "j \<in> rectSet w (x + blockSize) w y (y + blockHeight)"
          unfolding rectSet_def by (simp add: not_less) blast
        then show ?thesis by simp
      qed
    qed
    from painted_mono[OF painted_trans[OF b r] sub] ok'' show ?thesis
      unfolding unfold by simp
  qed
qed

lemma painted_sampledRows:
  assumes "cache_ok (snd st)" and "0 < blockSize" and "blockSize \<le> 32"
  shows "painted (rectSet w 0 w y h) (fst st) (fst (sampledRows blockSize bias w h y st))
         \<and> cache_ok (snd (sampledRows blockSize bias w h y st))"
  using assms
proof (induction blockSize bias w h y st rule: sampledRows.induct)
  case (1 blockSize bias w h y st)
  show ?case
  proof (cases "y < h")
    case False
    then have "rectSet w 0 w y h = {}" by (intro rectSet_empty) simp
    with False "1.prems" show ?thesis
      by (subst (1 2) sampledRows.simps) (simp add: painted_refl)
  next
    case True
    define bh where "bh = min blockSize (h - y)"
    define st' where "st' = sampledRow blockSize bias w y bh 0 st"
    have c: "y < h \<and> 0 < blockSize" using True "1.prems" by simp
    have bh: "bh \<le> 32" using "1.prems" by (simp add: bh_def)
    from painted_sampledRow[OF "1.prems"(1,2,3) bh, of w 0 y bias]
    have b: "painted (rectSet w 0 w y (y + bh)) (fst st) (fst st')"
      and ok': "cache_ok (snd st')" by (simp_all add: st'_def)
    have unfold: "sampledRows blockSize bias w h y st =
                  sampledRows blockSize bias w h (y + blockSize) st'"
      using c by (subst sampledRows.simps) (simp add: st'_def bh_def)
    from "1.IH"[OF c] ok' "1.prems"
    have r: "painted (rectSet w 0 w (y + blockSize) h) (fst st')
               (fst (sampledRows blockSize bias w h (y + blockSize) st'))"
      and ok'': "cache_ok (snd (sampledRows blockSize bias w h (y + blockSize) st'))"
      by (simp_all add: st'_def bh_def)
    have sub: "rectSet w 0 w y h \<subseteq> rectSet w 0 w y (y + bh) \<union> rectSet w 0 w (y + blockSize) h"
    proof
      fix j assume "j \<in> rectSet w 0 w y h"
      then obtain X Y k where j: "j = (Y * w + X) * 4 + k"
        and X: "X < w" and Y: "y \<le> Y" "Y < h" and k: "k < 3"
        by (auto simp: rectSet_def)
      show "j \<in> rectSet w 0 w y (y + bh) \<union> rectSet w 0 w (y + blockSize) h"
      proof (cases "Y < y + blockSize")
        case True
        with Y have "Y < y + bh" by (simp add: bh_def)
        with j X Y k have "j \<in> rectSet w 0 w y (y + bh)"
          unfolding rectSet_def by blast
        then show ?thesis by simp
      next
        case False
        with j X Y k have "j \<in> rectSet w 0 w (y + blockSize) h"
          unfolding rectSet_def by (simp add: not_less) blast
        then show ?thesis by simp
      qed
    qed
    from painted_mono[OF painted_trans[OF b r] sub] ok'' show ?thesis
      unfolding unfold by simp
  qed
qed

lemma colour_in_rectSet:
  assumes "j < 4 * w * h" and "j mod 4 \<noteq> 3"
  shows "j \<in> rectSet w 0 w 0 h"
proof -
  define p where "p = j div 4"
  have p: "p < w * h" using assms(1) by (simp add: p_def less_mult_imp_div_less mult.commute mult.assoc)
  then have w: "0 < w" by (cases w) simp_all
  have "p div w < h" using p w by (simp add: less_mult_imp_div_less mult.commute)
  moreover have "p mod w < w" using w by simp
  moreover have "j mod 4 < 3" using assms(2) by presburger
  moreover have "j = (p div w * w + p mod w) * 4 + j mod 4" by (simp add: p_def)
  ultimately show ?thesis unfolding rectSet_def by blast
qed

lemma getHalftonePattern_keeps:
  "key \<in> dom cache \<Longrightarrow> key \<in> dom (snd (getHalftonePattern cache w h))"
  by (auto simp: getHalftonePattern_def Let_def split: option.splits)

lemma getHalftonePattern_key:
  "cacheKey w h \<in> dom (snd (getHalftonePattern cache w h))"
  by (auto simp: getHalftonePattern_def Let_def split: option.splits)

lemma sampledBlock_keeps:
  "key \<in> dom (snd st) \<Longrightarrow> key \<in> dom (snd (sampledBlock bias w x y bw bh st))"
  using getHalftonePattern_keeps[of key "snd st" bw bh]
  by (simp add: sampledBlock_def Let_def)

lemma sampledBlock_key:
  "0 < bw \<Longrightarrow> 0 < bh \<Longrightarrow> cacheKey bw bh \<in> dom (snd (sampledBlock bias w x y bw bh st))"
  using getHalftonePattern_key[of bw bh "snd st"]
  by (simp add: sampledBlock_def Let_def)

lemma sampledRow_keeps:
  "key \<in> dom (snd st) \<Longrightarrow> key \<in> dom (snd (sampledRow blockSize bias w y blockHeight x st))"
proof (induction blockSize bias w y blockHeight x st rule: sampledRow.induct)
  case (1 blockSize bias w y blockHeight x st)
  show ?case
  proof (cases "x < w \<and> 0 < blockSize")
    case False
    with "1.prems" show ?thesis by (subst sampledRow.simps) auto
  next
    case True
    from "1.IH"[OF True sampledBlock_keeps[OF "1.prems"]] True show ?thesis
      by (subst sampledRow.simps) simp
  qed
qed

lemma sampledRows_keeps:
  "key \<in> dom (snd st) \<Longrightarrow> key \<in> dom (snd (sampledRows blockSize bias w h y st))"
proof (induction blockSize bias w h y st rule: sampledRows.induct)
  case (1 blockSize bias w h y st)
  show ?case
  proof (cases "y < h \<and> 0 < blockSize")
    case False
    with "1.prems" show ?thesis by (subst sampledRows.simps) auto
  next
    case True
    from "1.IH"[OF True sampledRow_keeps[OF "1.prems"]] True show ?thesis
      by (subst sampledRows.simps) simp
  qed
qed

lemma sampledRows_first_key:
  assumes "0 < w" and "0 < h" and "0 < b"
  shows "cacheKey (min b w) (min b h) \<in> dom (snd (sampledRows b bias w h 0 st))"
proof -
  have "cacheKey (min b w) (min b h) \<in> dom (snd (sampledBlock bias w 0 0 (min b w) (min b h) st))"
    using assms by (intro sampledBlock_key) simp_all
  then have "cacheKey (min b w) (min b h) \<in> dom (snd (sampledRow b bias w 0 (min b h) 0 st))"
    using assms sampledRow_keeps
    by (subst sampledRow.simps) simp
  then show ?thesis
    using assms sampledRows_keeps
    by (subst sampledRows.simps) simp
qed

lemma clampBlockSize_range: "clampBlockSize n = Some b \<Longrightarrow> 2 \<le> b \<and> b \<le> 32"
proof (cases n)
  case (Finite y)
  assume "clampBlockSize n = Some b"
  with Finite have "b = nat (max 2 (min 32 (Math_round y)))" by simp
  then show ?thesis by linarith
qed auto

lemma clampBlockSize_None: "clampBlockSize n = None \<longleftrightarrow> n = NaN"
  by (cases n) simp_all

lemma clampBlockSize_nat:
  "2 \<le> b \<Longrightarrow> b \<le> 32 \<Longrightarrow> clampBlockSize (Finite (real b)) = Some b"
proof -
  assume b: "2 \<le> b" "b \<le> 32"
  have "\<lfloor>real b + 1 / 2\<rfloor> = int b" by linarith
  with b show ?thesis by (simp add: Math_round_def)
qed

lemma clampBlockSize_high: "32 \<le> y \<Longrightarrow> clampBlockSize (Finite y) = Some 32"
proof -
  assume "32 \<le> y"
  then have "32 \<le> \<lfloor>y + 1 / 2\<rfloor>" by linarith
  then show ?thesis by (simp add: Math_round_def)
qed

lemma clampBlockSize_low: "y \<le> 2 \<Longrightarrow> clampBlockSize (Finite y) = Some 2"
proof -
  assume "y \<le> 2"
  then have "\<lfloor>y + 1 / 2\<rfloor> \<le> 2" by linarith
  then show ?thesis by (simp add: Math_round_def)
qed

lemma applySampledMonochrome_Some:
  assumes "clampBlockSize (case density of None \<Rightarrow> Finite 6 | Some n \<Rightarrow> n) = Some bs"
  shows "applySampledMonochrome cache imageData density t =
     (let st = sampledRows bs
                 (map_option (\<lambda>l. fl (of_int (l - 170) / 255))
                    (clampLimit (case t of None \<Rightarrow> Finite 170 | Some x \<Rightarrow> x)))
                 (width imageData) (height imageData) 0 (data imageData, cache)
      in (imageData\<lparr>data := fst st\<rparr>, snd st))"
  using assms by (simp add: applySampledMonochrome_def Let_def del: clampBlockSize.simps clampLimit.simps)

lemma applySampledMonochrome_NaN:
  "applySampledMonochrome cache imageData (Some NaN) t = (imageData, cache)"
  by (simp add: applySampledMonochrome_def Let_def)

text \<open>
  C9, as stated, fails for the density \<open>NaN\<close>: the block size is then \<open>NaN\<close>, both loops
  end at once and the buffer is returned as it was, here with the red channel 10 of the
  first pixel.
\<close>

theorem applySampledMonochrome_NaN_counterexample:
  "wellformed twoPixels
   \<and> data (fst (applySampledMonochrome Map.empty twoPixels (Some NaN) None)) ! 0 = 10
   \<and> (10 :: 8 word) \<notin> {0, 255}"
  by (simp add: applySampledMonochrome_NaN) (simp add: twoPixels_def wellformed_def)

text \<open>
  C9, amended. After sampled halftone has run on a well-formed buffer, with any density
  other than \<open>NaN\<close> (absent, finite or infinite) and any threshold (\<open>NaN\<close> too), and any
  cache filled by earlier calls, every colour channel of every pixel is 0 or 255 and every
  alpha channel is as before: each block's pattern is a permutation of the block-local
  indices, so the walk over the pattern writes every pixel of the block, and the blocks
  tile the canvas.
\<close>

theorem applySampledMonochrome_black_white:
  assumes "wellformed imageData" and "cache_ok cache" and "density \<noteq> Some NaN"
  shows "(let out = fst (applySampledMonochrome cache imageData density t)
          in width out = width imageData \<and> height out = height imageData
             \<and> length (data out) = length (data imageData)
             \<and> (\<forall>j < length (data imageData).
                   if j mod 4 = 3 then data out ! j = data imageData ! j
                   else data out ! j \<in> {0, 255}))
         \<and> cache_ok (snd (applySampledMonochrome cache imageData density t))"
proof -
  have "clampBlockSize (case density of None \<Rightarrow> Finite 6 | Some n \<Rightarrow> n) \<noteq> None"
    using assms(3) by (cases density) (simp_all add: clampBlockSize_None del: clampBlockSize.simps)
  then obtain bs where
    bs_eq: "clampBlockSize (case density of None \<Rightarrow> Finite 6 | Some n \<Rightarrow> n) = Some bs"
    by blast
  define bias where
    "bias = map_option (\<lambda>l. fl (of_int (l - 170) / 255))
              (clampLimit (case t of None \<Rightarrow> Finite 170 | Some x \<Rightarrow> x))"
  define st where
    "st = sampledRows bs bias (width imageData) (height imageData) 0 (data imageData, cache)"
  have a: "applySampledMonochrome cache imageData density t = (imageData\<lparr>data := fst st\<rparr>, snd st)"
    unfolding applySampledMonochrome_Some[OF bs_eq] by (simp add: Let_def st_def bias_def)
  have bs: "0 < bs" "bs \<le> 32" using clampBlockSize_range[OF bs_eq]
    by simp_all
  from painted_sampledRows[of "(data imageData, cache)" bs "width imageData" 0 "height imageData" bias]
    assms(2) bs
  have p: "painted (rectSet (width imageData) 0 (width imageData) 0 (height imageData))
             (data imageData) (fst st)"
    and ok: "cache_ok (snd st)" by (simp_all add: st_def)
  have len: "length (fst st) = length (data imageData)" using p by (simp add: painted_def)
  have px: "if j mod 4 = 3 then fst st ! j = data imageData ! j else fst st ! j \<in> {0, 255}"
    if j: "j < length (data imageData)" for j
  proof (cases "j mod 4 = 3")
    case True
    with p j show ?thesis by (auto simp: painted_def)
  next
    case False
    from j assms(1) have "j < 4 * width imageData * height imageData"
      by (simp add: wellformed_def)
    from colour_in_rectSet[OF this False] p j False show ?thesis
      by (auto simp: painted_def)
  qed
  then have "\<forall>j < length (data imageData).
      if j mod 4 = 3 then fst st ! j = data imageData ! j else fst st ! j \<in> {0, 255}"
    by blast
  moreover have "data (fst (applySampledMonochrome cache imageData density t)) = fst st"
    and "width (fst (applySampledMonochrome cache imageData density t)) = width imageData"
    and "height (fst (applySampledMonochrome cache imageData density t)) = height imageData"
    and "snd (applySampledMonochrome cache imageData density t) = snd st"
    by (simp_all add: a)
  ultimately show ?thesis
    unfolding Let_def using len ok by (simp only:)
qed

theorem applySampledMonochrome_black_white_witness:
  "data (fst (applySampledMonochrome Map.empty twoPixels None None)) ! 4 \<in> {0, 255}
   \<and> data (fst (applySampledMonochrome Map.empty twoPixels None None)) ! 7 = 128
   \<and> length (data (fst (applySampledMonochrome Map.empty twoPixels None None))) = 8
   \<and> data (fst (applySampledMonochrome Map.empty twoPixels (Some Infinity) (Some NaN))) ! 0
       \<in> {0, 255}"
proof -
  have wf: "wellformed twoPixels" by (simp add: wellformed_def twoPixels_def)
  have ok: "cache_ok Map.empty" by (simp add: cache_ok_def)
  have d1: "(None :: number option) \<noteq> Some NaN" and d2: "Some Infinity \<noteq> Some NaN"
    by simp_all
  have
    "\<forall>j < length (data twoPixels).
       if j mod 4 = 3
       then data (fst (applySampledMonochrome Map.empty twoPixels None None)) ! j = data twoPixels ! j
       else data (fst (applySampledMonochrome Map.empty twoPixels None None)) ! j \<in> {0, 255}"
    and "length (data (fst (applySampledMonochrome Map.empty twoPixels None None))) = length (data twoPixels)"
    using applySampledMonochrome_black_white[OF wf ok d1, where t = None]
    unfolding Let_def by blast+
  note n = this(1)[rule_format, of 4] this(1)[rule_format, of 7] this(2)
  have "\<forall>j < length (data twoPixels).
       if j mod 4 = 3
       then data (fst (applySampledMonochrome Map.empty twoPixels (Some Infinity) (Some NaN))) ! j
              = data twoPixels ! j
       else data (fst (applySampledMonochrome Map.empty twoPixels (Some Infinity) (Some NaN))) ! j
              \<in> {0, 255}"
    using applySampledMonochrome_black_white[OF wf ok d2, where t = "Some NaN"]
    unfolding Let_def by blast
  note i = this[rule_format, of 0]
  from n i show ?thesis by (simp add: twoPixels_def)
qed

subsection \<open>Clamping of threshold and density\<close>

lemma applyBinaryThreshold_cong:
  "clampLimit t = clampLimit t' \<Longrightarrow>
   applyBinaryThreshold im (Some t) = applyBinaryThreshold im (Some t')"
  by (simp add: applyBinaryThreshold_def)

lemma applySampledMonochrome_cong_threshold:
  "clampLimit t = clampLimit t' \<Longrightarrow>
   applySampledMonochrome c im dn (Some t) = applySampledMonochrome c im dn (Some t')"
  by (simp add: applySampledMonochrome_def)

lemma applySampledMonochrome_cong_density:
  "clampBlockSize n = clampBlockSize n' \<Longrightarrow>
   applySampledMonochrome c im (Some n) th = applySampledMonochrome c im (Some n') th"
  by (simp add: applySampledMonochrome_def)

lemma limit_behaviour:
  assumes "clampLimit t = Some k"
  shows "0 \<le> k \<and> k \<le> 255
     \<and> applyBinaryThreshold im (Some t) = applyBinaryThreshold im (Some (Finite (of_int k)))
     \<and> applySampledMonochrome c im dn (Some t) =
         applySampledMonochrome c im dn (Some (Finite (of_int k)))
     \<and> (\<forall>j < length (data im). j mod 4 \<noteq> 3 \<longrightarrow>
          data (applyBinaryThreshold im (Some t)) ! j =
            (if j - j mod 4 + 2 < length (data im)
                \<and> real_of_int k \<le> gray (data im) (j - j mod 4)
             then 255 else 0))"
proof -
  have e: "clampLimit t = clampLimit (Finite (of_int k))"
    using clampLimit_clampLimit[OF assms] assms by simp
  have "\<forall>j < length (data im). j mod 4 \<noteq> 3 \<longrightarrow>
          data (applyBinaryThreshold im (Some t)) ! j =
            (if j - j mod 4 + 2 < length (data im)
                \<and> real_of_int k \<le> gray (data im) (j - j mod 4)
             then 255 else 0)"
    using assms
    by (simp add: applyBinaryThreshold_data applyBinaryThreshold_nth pixelValue_def
        greaterEq_def)
  with clampLimit_range[OF assms] applyBinaryThreshold_cong[OF e]
    applySampledMonochrome_cong_threshold[OF e]
  show ?thesis by blast
qed

lemma blockSize_behaviour:
  assumes "clampBlockSize n = Some b"
  shows "2 \<le> b \<and> b \<le> 32
     \<and> applySampledMonochrome c im (Some n) th =
         applySampledMonochrome c im (Some (Finite (real b))) th
     \<and> applySampledMonochrome c im (Some n) th =
         (let st = sampledRows b
                     (map_option (\<lambda>l. fl (of_int (l - 170) / 255))
                        (clampLimit (case th of None \<Rightarrow> Finite 170 | Some x \<Rightarrow> x)))
                     (width im) (height im) 0 (data im, c)
          in (im\<lparr>data := fst st\<rparr>, snd st))
     \<and> (0 < width im \<and> 0 < height im \<longrightarrow>
          cacheKey (min b (width im)) (min b (height im))
            \<in> dom (snd (applySampledMonochrome c im (Some n) th)))"
proof -
  note r = clampBlockSize_range[OF assms]
  have e: "clampBlockSize n = clampBlockSize (Finite (real b))"
    using clampBlockSize_nat[of b] r assms by simp
  have s: "clampBlockSize (case Some n of None \<Rightarrow> Finite 6 | Some n \<Rightarrow> n) = Some b"
    using assms by simp
  note u = applySampledMonochrome_Some[OF s, of c im th]
  have "cacheKey (min b (width im)) (min b (height im))
            \<in> dom (snd (applySampledMonochrome c im (Some n) th))"
    if "0 < width im \<and> 0 < height im"
  proof -
    have "0 < b" using r by simp
    from sampledRows_first_key[OF _ _ this, of "width im" "height im"] that
    show ?thesis unfolding u by (simp add: Let_def)
  qed
  with u r applySampledMonochrome_cong_density[OF e]
  show ?thesis by blast
qed

text \<open>
  C10, as stated, fails for \<open>NaN\<close>, which \<open>Math.min\<close> and \<open>Math.max\<close> do not clamp. With
  the threshold \<open>NaN\<close> the limit is \<open>NaN\<close>, not a value of \<open>[0, 255]\<close>: binary threshold
  turns a white pixel black, which no limit from 0 to 255 does (at 255, and at 0, it stays
  white). With the density \<open>NaN\<close> the block side is \<open>NaN\<close>, not a value of \<open>[2, 32]\<close>:
  sampled halftone returns the buffer and the cache untouched.
\<close>

theorem clamp_NaN_counterexample:
  "clampLimit NaN = None
   \<and> data (applyBinaryThreshold whitePixel (Some NaN)) = [0, 0, 0, 255]
   \<and> data (applyBinaryThreshold whitePixel (Some (Finite 255))) = [255, 255, 255, 255]
   \<and> data (applyBinaryThreshold whitePixel (Some (Finite 0))) = [255, 255, 255, 255]
   \<and> clampBlockSize NaN = None
   \<and> applySampledMonochrome Map.empty twoPixels (Some NaN) (Some (Finite 300)) =
       (twoPixels, Map.empty)"
proof -
  have w: "gray [255, 255, 255, 255] 0 = 255"
    by (rule gray_white) simp_all
  have "data (applyBinaryThreshold whitePixel (Some NaN)) = [0, 0, 0, 255]"
    by (simp add: applyBinaryThreshold_data whitePixel_def)
       (simp add: applyBinaryThreshold_loop.simps[of _ 0] applyBinaryThreshold_loop.simps[of _ 4]
          greaterEq_def)
  moreover have "data (applyBinaryThreshold whitePixel (Some (Finite 255))) = [255, 255, 255, 255]"
    by (simp add: applyBinaryThreshold_data whitePixel_def Math_round_def)
       (simp add: applyBinaryThreshold_loop.simps[of _ 0] applyBinaryThreshold_loop.simps[of _ 4]
          greaterEq_def w)
  moreover have "data (applyBinaryThreshold whitePixel (Some (Finite 0))) = [255, 255, 255, 255]"
    by (simp add: applyBinaryThreshold_data whitePixel_def Math_round_def)
       (simp add: applyBinaryThreshold_loop.simps[of _ 0] applyBinaryThreshold_loop.simps[of _ 4]
          greaterEq_def w)
  ultimately show ?thesis
    by (simp add: applySampledMonochrome_NaN)
qed

text \<open>
  C10, amended. No threshold is rejected, and every threshold other than \<open>NaN\<close> is first
  rounded and clamped into \<open>[0, 255]\<close> (\<open>Infinity\<close> to 255, \<open>-Infinity\<close> to 0): with
  \<open>k\<close> the result, binary threshold and sampled halftone do exactly what they do for the
  threshold \<open>k\<close>, binary threshold paints a pixel white exactly when its luminance is at
  least \<open>k\<close>, and two thresholds with the same \<open>k\<close> give the same results; so any
  threshold of 255 or more behaves as 255 and any negative one as 0. Likewise every density
  other than \<open>NaN\<close> is rounded and clamped into \<open>[2, 32]\<close>, and the result \<open>b\<close> is the
  block side the loops of sampled halftone run with: on a canvas that is not empty the
  pattern asked for the first block, and left in the cache, is the one of the shape
  \<open>min b width \<times> min b height\<close>. For \<open>NaN\<close> the limit, or the block side, is \<open>NaN\<close>.
\<close>

theorem threshold_and_density_clamped:
  "(clampLimit t = None \<longleftrightarrow> t = NaN)
   \<and> clampLimit (Finite x) = Some (max 0 (min 255 \<lfloor>x + 1 / 2\<rfloor>))
   \<and> clampLimit Infinity = Some 255 \<and> clampLimit NegInfinity = Some 0
   \<and> (clampLimit t = Some k \<longrightarrow>
        0 \<le> k \<and> k \<le> 255
        \<and> applyBinaryThreshold im (Some t) = applyBinaryThreshold im (Some (Finite (of_int k)))
        \<and> applySampledMonochrome c im dn (Some t) =
            applySampledMonochrome c im dn (Some (Finite (of_int k)))
        \<and> (\<forall>j < length (data im). j mod 4 \<noteq> 3 \<longrightarrow>
             data (applyBinaryThreshold im (Some t)) ! j =
               (if j - j mod 4 + 2 < length (data im)
                   \<and> real_of_int k \<le> gray (data im) (j - j mod 4)
                then 255 else 0)))
   \<and> (clampLimit t = clampLimit t' \<longrightarrow>
        applyBinaryThreshold im (Some t) = applyBinaryThreshold im (Some t')
        \<and> applySampledMonochrome c im dn (Some t) = applySampledMonochrome c im dn (Some t'))
   \<and> (255 \<le> x \<longrightarrow>
        applyBinaryThreshold im (Some (Finite x)) = applyBinaryThreshold im (Some (Finite 255))
        \<and> applySampledMonochrome c im dn (Some (Finite x)) =
            applySampledMonochrome c im dn (Some (Finite 255)))
   \<and> (x < 0 \<longrightarrow>
        applyBinaryThreshold im (Some (Finite x)) = applyBinaryThreshold im (Some (Finite 0))
        \<and> applySampledMonochrome c im dn (Some (Finite x)) =
            applySampledMonochrome c im dn (Some (Finite 0)))
   \<and> (clampBlockSize n = None \<longleftrightarrow> n = NaN)
   \<and> clampBlockSize (Finite y) = Some (nat (max 2 (min 32 \<lfloor>y + 1 / 2\<rfloor>)))
   \<and> clampBlockSize Infinity = Some 32 \<and> clampBlockSize NegInfinity = Some 2
   \<and> (clampBlockSize n = Some b \<longrightarrow>
        2 \<le> b \<and> b \<le> 32
        \<and> applySampledMonochrome c im (Some n) th =
            applySampledMonochrome c im (Some (Finite (real b))) th
        \<and> applySampledMonochrome c im (Some n) th =
            (let st = sampledRows b
                        (map_option (\<lambda>l. fl (of_int (l - 170) / 255))
                           (clampLimit (case th of None \<Rightarrow> Finite 170 | Some x \<Rightarrow> x)))
                        (width im) (height im) 0 (data im, c)
             in (im\<lparr>data := fst st\<rparr>, snd st))
        \<and> (0 < width im \<and> 0 < height im \<longrightarrow>
             cacheKey (min b (width im)) (min b (height im))
               \<in> dom (snd (applySampledMonochrome c im (Some n) th))))
   \<and> (clampBlockSize n = clampBlockSize n' \<longrightarrow>
        applySampledMonochrome c im (Some n) th = applySampledMonochrome c im (Some n') th)
   \<and> (32 \<le> y \<longrightarrow>
        applySampledMonochrome c im (Some (Finite y)) th =
          applySampledMonochrome c im (Some (Finite 32)) th)
   \<and> (y \<le> 2 \<longrightarrow>
        applySampledMonochrome c im (Some (Finite y)) th =
          applySampledMonochrome c im (Some (Finite 2)) th)"
proof -
  have hi: "clampLimit (Finite x) = clampLimit (Finite 255)" if "255 \<le> x"
    using clampLimit_high[OF that] clampLimit_high[of 255] by simp
  have lo: "clampLimit (Finite x) = clampLimit (Finite 0)" if "x < 0"
    using clampLimit_low[of x] clampLimit_low[of 0] that by simp
  have bhi: "clampBlockSize (Finite y) = clampBlockSize (Finite 32)" if "32 \<le> y"
    using clampBlockSize_high[OF that] clampBlockSize_high[of 32] by simp
  have blo: "clampBlockSize (Finite y) = clampBlockSize (Finite 2)" if "y \<le> 2"
    using clampBlockSize_low[OF that] clampBlockSize_low[of 2] by simp
  have l1: "clampLimit (Finite x) = Some (max 0 (min 255 \<lfloor>x + 1 / 2\<rfloor>))"
    by (simp add: Math_round_def)
  have l2: "clampLimit Infinity = Some 255" and l3: "clampLimit NegInfinity = Some 0"
    by simp_all
  have b1: "clampBlockSize (Finite y) = Some (nat (max 2 (min 32 \<lfloor>y + 1 / 2\<rfloor>)))"
    by (simp add: Math_round_def)
  have b2: "clampBlockSize Infinity = Some 32" and b3: "clampBlockSize NegInfinity = Some 2"
    by simp_all
  note lim = limit_behaviour[of t k im c dn]
  note blk = blockSize_behaviour[of n b c im th]
  show ?thesis
  proof (intro conjI impI)
    show "clampLimit t = None \<longleftrightarrow> t = NaN" by (rule clampLimit_None)
    show "clampBlockSize n = None \<longleftrightarrow> n = NaN" by (rule clampBlockSize_None)
    show "clampLimit (Finite x) = Some (max 0 (min 255 \<lfloor>x + 1 / 2\<rfloor>))" by (rule l1)
    show "clampLimit Infinity = Some 255" by (rule l2)
    show "clampLimit NegInfinity = Some 0" by (rule l3)
    show "clampBlockSize (Finite y) = Some (nat (max 2 (min 32 \<lfloor>y + 1 / 2\<rfloor>)))" by (rule b1)
    show "clampBlockSize Infinity = Some 32" by (rule b2)
    show "clampBlockSize NegInfinity = Some 2" by (rule b3)
  next
    assume "clampLimit t = Some k"
    note f = lim[OF this]
    from f show "0 \<le> k" by (rule conjunct1)
    from f show "k \<le> 255" by blast
    from f show "applyBinaryThreshold im (Some t) =
        applyBinaryThreshold im (Some (Finite (of_int k)))" by blast
    from f show "applySampledMonochrome c im dn (Some t) =
        applySampledMonochrome c im dn (Some (Finite (of_int k)))" by blast
    from f show "\<forall>j < length (data im). j mod 4 \<noteq> 3 \<longrightarrow>
             data (applyBinaryThreshold im (Some t)) ! j =
               (if j - j mod 4 + 2 < length (data im)
                   \<and> real_of_int k \<le> gray (data im) (j - j mod 4)
                then 255 else 0)" by blast
  next
    assume e: "clampLimit t = clampLimit t'"
    show "applyBinaryThreshold im (Some t) = applyBinaryThreshold im (Some t')"
      using e by (rule applyBinaryThreshold_cong)
    show "applySampledMonochrome c im dn (Some t) = applySampledMonochrome c im dn (Some t')"
      using e by (rule applySampledMonochrome_cong_threshold)
  next
    assume "255 \<le> x"
    note e = hi[OF this]
    show "applyBinaryThreshold im (Some (Finite x)) = applyBinaryThreshold im (Some (Finite 255))"
      using e by (rule applyBinaryThreshold_cong)
    show "applySampledMonochrome c im dn (Some (Finite x)) =
            applySampledMonochrome c im dn (Some (Finite 255))"
      using e by (rule applySampledMonochrome_cong_threshold)
  next
    assume "x < 0"
    note e = lo[OF this]
    show "applyBinaryThreshold im (Some (Finite x)) = applyBinaryThreshold im (Some (Finite 0))"
      using e by (rule applyBinaryThreshold_cong)
    show "applySampledMonochrome c im dn (Some (Finite x)) =
            applySampledMonochrome c im dn (Some (Finite 0))"
      using e by (rule applySampledMonochrome_cong_threshold)
  next
    assume "clampBlockSize n = Some b"
    note f = blk[OF this]
    from f show "2 \<le> b" by (rule conjunct1)
    from f show "b \<le> 32" by blast
    from f show "applySampledMonochrome c im (Some n) th =
            applySampledMonochrome c im (Some (Finite (real b))) th" by blast
    from f show "applySampledMonochrome c im (Some n) th =
            (let st = sampledRows b
                        (map_option (\<lambda>l. fl (of_int (l - 170) / 255))
                           (clampLimit (case th of None \<Rightarrow> Finite 170 | Some x \<Rightarrow> x)))
                        (width im) (height im) 0 (data im, c)
             in (im\<lparr>data := fst st\<rparr>, snd st))" by blast
    assume "0 < width im \<and> 0 < height im"
    with f show "cacheKey (min b (width im)) (min b (height im))
               \<in> dom (snd (applySampledMonochrome c im (Some n) th))" by blast
  next
    assume "clampBlockSize n = clampBlockSize n'"
    then show "applySampledMonochrome c im (Some n) th = applySampledMonochrome c im (Some n') th"
      by (rule applySampledMonochrome_cong_density)
  next
    assume "32 \<le> y"
    from bhi[OF this] show "applySampledMonochrome c im (Some (Finite y)) th =
          applySampledMonochrome c im (Some (Finite 32)) th"
      by (rule applySampledMonochrome_cong_density)
  next
    assume "y \<le> 2"
    from blo[OF this] show "applySampledMonochrome c im (Some (Finite y)) th =
          applySampledMonochrome c im (Some (Finite 2)) th"
      by (rule applySampledMonochrome_cong_density)
  qed
qed

theorem threshold_and_density_clamped_witness:
  "applyBinaryThreshold twoPixels (Some (Finite 300)) =
     applyBinaryThreshold twoPixels (Some (Finite 255))
   \<and> applySampledMonochrome Map.empty twoPixels None (Some (Finite 300)) =
       applySampledMonochrome Map.empty twoPixels None (Some (Finite 255))
   \<and> applyBinaryThreshold twoPixels (Some (Finite (- 5))) =
       applyBinaryThreshold twoPixels (Some (Finite 0))
   \<and> applySampledMonochrome Map.empty twoPixels None (Some (Finite (- 5))) =
       applySampledMonochrome Map.empty twoPixels None (Some (Finite 0))
   \<and> applySampledMonochrome Map.empty twoPixels (Some (Finite 100)) None =
       applySampledMonochrome Map.empty twoPixels (Some (Finite 32)) None
   \<and> applySampledMonochrome Map.empty twoPixels (Some (Finite 0)) None =
       applySampledMonochrome Map.empty twoPixels (Some (Finite 2)) None
   \<and> data (applyBinaryThreshold twoPixels (Some (Finite 169.5))) ! 4 = 255
   \<and> applyBinaryThreshold twoPixels (Some (Finite 169.5)) =
       applyBinaryThreshold twoPixels (Some (Finite 170))
   \<and> applySampledMonochrome Map.empty twoPixels (Some (Finite 2.5)) None =
       applySampledMonochrome Map.empty twoPixels (Some (Finite 3)) None
   \<and> ''3x3'' \<in> dom (snd (applySampledMonochrome Map.empty grayCanvas (Some (Finite 2.5)) None))"
proof -
  have k: "clampLimit (Finite 169.5) = Some 170"
    by (simp add: Math_round_def)
  have b: "clampBlockSize (Finite 2.5) = Some 3"
    by (simp add: Math_round_def)
  note hi = threshold_and_density_clamped[where t = "Finite 169.5" and k = 170 and x = 300
      and im = twoPixels and c = Map.empty and dn = None and th = None and y = 100
      and n = "Finite 2.5" and b = 3 and t' = "Finite 170" and n' = "Finite 3"]
  note lo = threshold_and_density_clamped[where t = "Finite 169.5" and k = 170 and x = "- 5"
      and im = twoPixels and c = Map.empty and dn = None and th = None and y = 0
      and n = "Finite 2.5" and b = 3 and t' = "Finite 170" and n' = "Finite 3"]
  from hi k have s1: "applyBinaryThreshold twoPixels (Some (Finite 169.5)) =
       applyBinaryThreshold twoPixels (Some (Finite (of_int 170)))"
    by blast
  from hi b have s2: "applySampledMonochrome Map.empty twoPixels (Some (Finite 2.5)) None =
       applySampledMonochrome Map.empty twoPixels (Some (Finite (real 3))) None"
    by blast
  have "0 < width grayCanvas \<and> 0 < height grayCanvas"
    by (simp add: grayCanvas_def)
  with b threshold_and_density_clamped[where n = "Finite 2.5" and b = 3 and im = grayCanvas
      and c = Map.empty and th = None]
  have "cacheKey (min 3 (width grayCanvas)) (min 3 (height grayCanvas))
          \<in> dom (snd (applySampledMonochrome Map.empty grayCanvas (Some (Finite 2.5)) None))"
    by blast
  moreover have "cacheKey (min 3 (width grayCanvas)) (min 3 (height grayCanvas)) = ''3x3''"
    by (simp add: grayCanvas_def cacheKey_def decimal.simps char_of_def bit_iff_odd)
  ultimately have s3:
    "''3x3'' \<in> dom (snd (applySampledMonochrome Map.empty grayCanvas (Some (Finite 2.5)) None))"
    by simp
  from hi k have "\<forall>j < length (data twoPixels). j mod 4 \<noteq> 3 \<longrightarrow>
      data (applyBinaryThreshold twoPixels (Some (Finite 169.5))) ! j =
        (if j - j mod 4 + 2 < length (data twoPixels)
            \<and> real_of_int 170 \<le> gray (data twoPixels) (j - j mod 4)
         then 255 else 0)"
    by blast
  from this[rule_format, of 4] gray_twoPixels_4
  have p: "data (applyBinaryThreshold twoPixels (Some (Finite 169.5))) ! 4 = 255"
    by (simp add: twoPixels_def)
  from hi have
    "applyBinaryThreshold twoPixels (Some (Finite 300)) =
       applyBinaryThreshold twoPixels (Some (Finite 255))"
    "applySampledMonochrome Map.empty twoPixels None (Some (Finite 300)) =
       applySampledMonochrome Map.empty twoPixels None (Some (Finite 255))"
    "applySampledMonochrome Map.empty twoPixels (Some (Finite 100)) None =
       applySampledMonochrome Map.empty twoPixels (Some (Finite 32)) None"
    by simp_all
  moreover from lo have
    "applyBinaryThreshold twoPixels (Some (Finite (- 5))) =
       applyBinaryThreshold twoPixels (Some (Finite 0))"
    "applySampledMonochrome Map.empty twoPixels None (Some (Finite (- 5))) =
       applySampledMonochrome Map.empty twoPixels None (Some (Finite 0))"
    "applySampledMonochrome Map.empty twoPixels (Some (Finite 0)) None =
       applySampledMonochrome Map.empty twoPixels (Some (Finite 2)) None"
    by simp_all
  ultimately show ?thesis using p s1 s2 s3 by simp
qed

subsection \<open>The drawn region\<close>

lemma fit_bounds:
  fixes n m C D :: real
  assumes n: "0 < n" and m: "0 < m" and C: "0 \<le> C" and D: "0 \<le> D"
    and le: "fl (C / n) \<le> fl (D / m)"
  shows "\<bar>fl (n * fl (C / n)) - C\<bar> \<le> C * roundoff"
    and "fl (m * fl (C / n)) \<le> D * (1 + roundoff)"
proof -
  have "\<bar>fl (C / n) - C / n\<bar> \<le> \<bar>C / n\<bar> / 2 ^ 53" by (rule fl_error)
  then have "n * \<bar>fl (C / n) - C / n\<bar> \<le> n * (\<bar>C / n\<bar> / 2 ^ 53)"
    using n by (intro mult_left_mono) simp_all
  moreover have "n * \<bar>fl (C / n) - C / n\<bar> = \<bar>n * fl (C / n) - C\<bar>"
  proof -
    have "n * fl (C / n) - C = n * (fl (C / n) - C / n)" using n by (simp add: algebra_simps)
    then show ?thesis using n by (simp add: abs_mult)
  qed
  moreover have "n * (\<bar>C / n\<bar> / 2 ^ 53) = \<bar>C\<bar> / 2 ^ 53"
    using n C by simp
  ultimately have "\<bar>n * fl (C / n) - C\<bar> \<le> \<bar>C\<bar> / 2 ^ 53" by (simp only:)
  from two_roundings[OF this] C show "\<bar>fl (n * fl (C / n)) - C\<bar> \<le> C * roundoff" by simp
  have s0: "0 \<le> fl (C / n)" using C n by (intro fl_nonneg) simp
  have "0 \<le> D / m" using D m by simp
  from fl_upper[OF this] have "fl (D / m) \<le> D / m * (1 + 1 / 2 ^ 53)" .
  with le have "fl (C / n) \<le> D / m * (1 + 1 / 2 ^ 53)" by linarith
  then have "m * fl (C / n) \<le> m * (D / m * (1 + 1 / 2 ^ 53))"
    using m by (intro mult_left_mono) simp_all
  also have "\<dots> = D * (1 + 1 / 2 ^ 53)" using m by simp
  finally have a: "m * fl (C / n) \<le> D * (1 + 1 / 2 ^ 53)" .
  have "0 \<le> m * fl (C / n)" using m s0 by simp
  from fl_upper[OF this] have "fl (m * fl (C / n)) \<le> m * fl (C / n) * (1 + 1 / 2 ^ 53)" .
  also have "\<dots> \<le> D * (1 + 1 / 2 ^ 53) * (1 + 1 / 2 ^ 53)"
    using a by (intro mult_right_mono) simp_all
  also have "\<dots> = D * (1 + roundoff)"
    by (simp add: roundoff_def power2_eq_square)
  finally show "fl (m * fl (C / n)) \<le> D * (1 + roundoff)" .
qed

lemma offset_bound: "\<bar>fl (fl z / 2) - z / 2\<bar> \<le> \<bar>z\<bar> / 2 * roundoff"
proof -
  have "\<bar>fl z - z\<bar> \<le> \<bar>z\<bar> / 2 ^ 53" by (rule fl_error)
  then have "\<bar>fl z - z\<bar> / 2 \<le> \<bar>z\<bar> / 2 ^ 53 / 2" by (rule divide_right_mono) simp
  moreover have "\<bar>fl z - z\<bar> / 2 = \<bar>fl z / 2 - z / 2\<bar>"
  proof -
    have "fl z / 2 - z / 2 = (fl z - z) / 2" by (simp add: diff_divide_distrib)
    then show ?thesis by (simp only: abs_divide abs_numeral)
  qed
  moreover have "\<bar>z\<bar> / 2 ^ 53 / 2 = \<bar>z / 2\<bar> / 2 ^ 53" by simp
  ultimately have "\<bar>fl z / 2 - z / 2\<bar> \<le> \<bar>z / 2\<bar> / 2 ^ 53" by (simp only:)
  from two_roundings[OF this] show ?thesis by simp
qed

lemma drawRegion_narrowPhoto:
  "drawWidth (drawRegion contain narrowPhoto) = 5242471441235969 / 8796093022208"
  "drawHeight (drawRegion contain narrowPhoto) = 7293873309545695 / 17592186044416"
  by (simp_all add: drawRegion_def narrowPhoto_def CUP_WIDTH_def CUP_HEIGHT_def Let_def
      fl_596_575 fl_832_400)
     (simp_all add: fl_def expo_def rne_def compute_bitlen Let_def)

text \<open>
  C8, amended. For every source image with positive width and height and \<open>fit = contain\<close>,
  the doubles \<open>drawWidth = fl (srcW * scale)\<close> and \<open>drawHeight = fl (srcH * scale)\<close>, with
  \<open>scale = min (fl (CUP_WIDTH / srcW)) (fl (CUP_HEIGHT / srcH))\<close>, satisfy
  \<open>drawWidth \<le> CUP_WIDTH * (1 + e)\<close> and \<open>drawHeight \<le> CUP_HEIGHT * (1 + e)\<close> for
  \<open>e = (1 + 2^-53)^2 - 1\<close>; at least one of the two is within the relative error \<open>e\<close> of its
  canvas dimension; and each offset is within the relative error \<open>e\<close> of
  \<open>(CUP_WIDTH - drawWidth) / 2\<close>, respectively \<open>(CUP_HEIGHT - drawHeight) / 2\<close>.
\<close>

theorem drawRegion_contain:
  assumes "0 < image_width img" and "0 < image_height img"
  shows "(let r = drawRegion contain img
          in drawWidth r \<le> real CUP_WIDTH * (1 + roundoff)
             \<and> drawHeight r \<le> real CUP_HEIGHT * (1 + roundoff)
             \<and> (\<bar>drawWidth r - real CUP_WIDTH\<bar> \<le> real CUP_WIDTH * roundoff
                \<or> \<bar>drawHeight r - real CUP_HEIGHT\<bar> \<le> real CUP_HEIGHT * roundoff)
             \<and> \<bar>offsetX r - (real CUP_WIDTH - drawWidth r) / 2\<bar>
                 \<le> \<bar>real CUP_WIDTH - drawWidth r\<bar> / 2 * roundoff
             \<and> \<bar>offsetY r - (real CUP_HEIGHT - drawHeight r) / 2\<bar>
                 \<le> \<bar>real CUP_HEIGHT - drawHeight r\<bar> / 2 * roundoff)"
proof -
  define w where "w = real (image_width img)"
  define h where "h = real (image_height img)"
  define W where "W = real CUP_WIDTH"
  define H where "H = real CUP_HEIGHT"
  define sx where "sx = fl (W / w)"
  define sy where "sy = fl (H / h)"
  define dW where "dW = fl (w * min sx sy)"
  define dH where "dH = fl (h * min sx sy)"
  have w: "0 < w" and h: "0 < h" using assms by (simp_all add: w_def h_def)
  have W: "0 \<le> W" and H: "0 \<le> H" by (simp_all add: W_def H_def)
  have r: "drawRegion contain img =
        \<lparr>offsetX = fl (fl (W - dW) / 2), offsetY = fl (fl (H - dH) / 2),
         drawWidth = dW, drawHeight = dH\<rparr>"
    by (simp add: drawRegion_def Let_def w_def h_def W_def H_def sx_def sy_def dW_def dH_def)
  have main: "dW \<le> W * (1 + roundoff) \<and> dH \<le> H * (1 + roundoff)
              \<and> (\<bar>dW - W\<bar> \<le> W * roundoff \<or> \<bar>dH - H\<bar> \<le> H * roundoff)"
  proof (cases "sx \<le> sy")
    case True
    then have m: "min sx sy = sx" by simp
    from True have le: "fl (W / w) \<le> fl (H / h)" by (simp add: sx_def sy_def)
    have a: "\<bar>dW - W\<bar> \<le> W * roundoff"
      unfolding dW_def m unfolding sx_def by (rule fit_bounds(1)[OF w h W H le])
    have b: "dH \<le> H * (1 + roundoff)"
      unfolding dH_def m unfolding sx_def by (rule fit_bounds(2)[OF w h W H le])
    from a have "dW \<le> W + W * roundoff" by linarith
    then have "dW \<le> W * (1 + roundoff)" by (simp add: algebra_simps)
    with a b show ?thesis by simp
  next
    case False
    then have m: "min sx sy = sy" by simp
    from False have le: "fl (H / h) \<le> fl (W / w)" by (simp add: sx_def sy_def)
    have a: "\<bar>dH - H\<bar> \<le> H * roundoff"
      unfolding dH_def m unfolding sy_def by (rule fit_bounds(1)[OF h w H W le])
    have b: "dW \<le> W * (1 + roundoff)"
      unfolding dW_def m unfolding sy_def by (rule fit_bounds(2)[OF h w H W le])
    from a have "dH \<le> H + H * roundoff" by linarith
    then have "dH \<le> H * (1 + roundoff)" by (simp add: algebra_simps)
    with a b show ?thesis by simp
  qed
  from main offset_bound[of "W - dW"] offset_bound[of "H - dH"]
  show ?thesis
    unfolding Let_def r W_def[symmetric] H_def[symmetric] by simp
qed

theorem drawRegion_contain_witness:
  "drawWidth (drawRegion contain narrowPhoto) \<le> real CUP_WIDTH * (1 + roundoff)
   \<and> drawHeight (drawRegion contain narrowPhoto) \<le> real CUP_HEIGHT * (1 + roundoff)
   \<and> \<bar>drawWidth (drawRegion contain narrowPhoto) - real CUP_WIDTH\<bar> \<le> real CUP_WIDTH * roundoff"
proof -
  have "(0::nat) < image_width narrowPhoto" "(0::nat) < image_height narrowPhoto"
    by (simp_all add: narrowPhoto_def)
  from drawRegion_contain[OF this]
  have "drawWidth (drawRegion contain narrowPhoto) \<le> real CUP_WIDTH * (1 + roundoff)"
    and "drawHeight (drawRegion contain narrowPhoto) \<le> real CUP_HEIGHT * (1 + roundoff)"
    unfolding Let_def by blast+
  moreover have "\<bar>drawWidth (drawRegion contain narrowPhoto) - real CUP_WIDTH\<bar>
                 \<le> real CUP_WIDTH * roundoff"
    by (simp add: drawRegion_narrowPhoto CUP_WIDTH_def roundoff_def power2_eq_square)
  ultimately show ?thesis by simp
qed

text \<open>
  C8, as stated, fails in double precision: for an image of \<open>575 \<times> 400\<close> pixels the scale
  is \<open>fl (596 / 575)\<close> and \<open>575 * scale\<close> rounds to \<open>596.0000000000001\<close>, above
  \<open>CUP_WIDTH\<close>, while the height drawn is below \<open>CUP_HEIGHT\<close>: neither dimension equals
  its canvas dimension.
\<close>

theorem drawRegion_contain_counterexample:
  "real CUP_WIDTH < drawWidth (drawRegion contain narrowPhoto)
   \<and> drawHeight (drawRegion contain narrowPhoto) < real CUP_HEIGHT"
  by (simp add: drawRegion_narrowPhoto CUP_WIDTH_def CUP_HEIGHT_def)

end
